theory Spec2Isabelle
  imports Main "HOL-Library.Word"
begin

unbundle bit_operations_syntax

section \<open>Shadowsocks AEAD tunnel (aead.go)\<close>

text \<open>
  A shallow embedding of \<^verbatim>\<open>aead.go\<close>: the cipher suite descriptor \<^verbatim>\<open>aead\<close>, the handshake
  \<^verbatim>\<open>Shadow\<close>, and the tunnel \<^verbatim>\<open>aeadTunnel\<close> with \<^verbatim>\<open>Open\<close>, \<^verbatim>\<open>Seal\<close>, \<^verbatim>\<open>Read\<close>,
  \<^verbatim>\<open>Write\<close>, \<^verbatim>\<open>write\<close>, \<^verbatim>\<open>increment\<close> and \<^verbatim>\<open>hkdfSHA1\<close>.

  Go slices are byte lists. The tunnel's scratch array \<^verbatim>\<open>buffer\<close> is one list; the slices
  of it that the code keeps (\<^verbatim>\<open>raw\<close>, \<^verbatim>\<open>cache\<close>) are offsets and lengths into that list,
  so that a later write to the array is seen through them, as in Go.
  A run-time panic is the outcome \<open>Panic\<close>; a returned \<^verbatim>\<open>error\<close> is a value.
\<close>

subsection \<open>Data\<close>

type_synonym byte = "8 word"

definition MaxPayload :: nat where
  "MaxPayload = 0x3FFF"

datatype error =
    EOF                 \<comment> \<open>\<^verbatim>\<open>io.EOF\<close>\<close>
  | ErrUnexpectedEOF    \<comment> \<open>\<^verbatim>\<open>io.ErrUnexpectedEOF\<close>\<close>
  | ErrOpen             \<comment> \<open>the error of \<^verbatim>\<open>cipher.AEAD.Open\<close>\<close>
  | ErrTooLarge         \<comment> \<open>the error made in \<^verbatim>\<open>write\<close>\<close>
  | ErrWrite            \<comment> \<open>an error of the underlying stream's \<^verbatim>\<open>Write\<close>\<close>
  | ErrNewCipher
  | ErrNewAEAD

datatype 'a outcome = Return 'a | Panic

text \<open>
  \<^verbatim>\<open>cipher.AEAD\<close> is an interface of the standard library. Its three methods the code uses
  are the fields of a record: the overhead, sealing under a nonce, and opening under a
  nonce (\<open>None\<close> when the interface returns an error). Additional data is always \<^verbatim>\<open>nil\<close>.
\<close>

record AEAD =
  Overhead :: nat
  aeadSeal :: "byte list \<Rightarrow> byte list \<Rightarrow> byte list"
  aeadOpen :: "byte list \<Rightarrow> byte list \<Rightarrow> byte list option"

text \<open>
  The embedded \<^verbatim>\<open>io.ReadWriter\<close> is an in-memory duplex stream: the bytes the peer has sent
  and that are not read yet, the writes accepted so far (one entry for each call), and the
  number of writes the stream still accepts before its \<^verbatim>\<open>Write\<close> returns an error.
\<close>

record conn =
  incoming :: "byte list"
  outgoing :: "byte list list"
  wcredit :: nat

record aeadTunnel =
  rw :: conn
  RAEAD :: AEAD
  WAEAD :: AEAD
  RNonce :: "byte list"
  WNonce :: "byte list"
  buffer :: "byte list"
  cache_off :: nat   \<comment> \<open>\<^verbatim>\<open>cache\<close> is the slice \<^verbatim>\<open>buffer[cache_off : cache_off + cache_len]\<close>\<close>
  cache_len :: nat

text \<open>
  The field \<^verbatim>\<open>subKey\<close> is never read or written and is left out. The cache that
  \<^verbatim>\<open>Shadow\<close> makes is an empty slice of an array of its own; an empty slice has no
  bytes to alias, so it is the slice of length 0 at offset 0.
\<close>

definition cache :: "aeadTunnel \<Rightarrow> byte list" where
  "cache c = take (cache_len c) (drop (cache_off c) (buffer c))"

subsection \<open>The standard library functions the code calls\<close>

text \<open>
  \<^verbatim>\<open>io.ReadFull(r, buf)\<close> with \<open>n = len(buf)\<close> on a source holding \<open>src\<close>: the bytes stored
  into \<^verbatim>\<open>buf\<close>, the rest of the source, and the error. Asking for zero bytes reads nothing
  and succeeds. A source that ends early gives \<^verbatim>\<open>EOF\<close> when nothing was read and
  \<^verbatim>\<open>ErrUnexpectedEOF\<close> otherwise.
\<close>

definition ReadFull :: "nat \<Rightarrow> byte list \<Rightarrow> byte list \<times> byte list \<times> error option" where
  "ReadFull n src =
     (if n \<le> length src then (take n src, drop n src, None)
      else (src, [], Some (if src = [] then EOF else ErrUnexpectedEOF)))"

definition conn_Write :: "conn \<Rightarrow> byte list \<Rightarrow> conn \<times> error option" where
  "conn_Write s bs =
     (if wcredit s = 0 then (s, Some ErrWrite)
      else (s\<lparr>outgoing := outgoing s @ [bs], wcredit := wcredit s - 1\<rparr>, None))"

text \<open>
  \<^verbatim>\<open>append(dst, src...)\<close> where \<^verbatim>\<open>dst\<close> is a slice of the array \<open>buf\<close> that ends at offset
  \<open>off\<close> and has the array's end as its capacity: the bytes go into the array when they
  fit, and into a fresh array (the caller's array is untouched) when they do not.
\<close>

definition append_at :: "nat \<Rightarrow> byte list \<Rightarrow> byte list \<Rightarrow> byte list" where
  "append_at off src buf =
     (if off + length src \<le> length buf
      then take off buf @ src @ drop (off + length src) buf
      else buf)"

subsection \<open>The nonce counter\<close>

fun increment :: "byte list \<Rightarrow> byte list" where
  "increment [] = []"
| "increment (b # bs) = (if b + 1 \<noteq> 0 then (b + 1) # bs else (b + 1) # increment bs)"

text \<open>The value of a little-endian byte sequence.\<close>

fun le_val :: "byte list \<Rightarrow> nat" where
  "le_val [] = 0"
| "le_val (b # bs) = unat b + 256 * le_val bs"

subsection \<open>Open and Seal\<close>

text \<open>
  \<^verbatim>\<open>c.Open(dst, ciphertext)\<close>, with \<^verbatim>\<open>dst\<close> the slice of \<^verbatim>\<open>c.buffer\<close> ending at \<open>off\<close>.
  The deferred function increments the nonce whatever the AEAD returns.
\<close>

definition Open :: "aeadTunnel \<Rightarrow> nat \<Rightarrow> byte list \<Rightarrow> aeadTunnel \<times> byte list option" where
  "Open c off ciphertext =
     (case aeadOpen (RAEAD c) (RNonce c) ciphertext of
        None \<Rightarrow> (c\<lparr>RNonce := increment (RNonce c)\<rparr>, None)
      | Some plaintext \<Rightarrow>
          (c\<lparr>buffer := append_at off plaintext (buffer c),
             RNonce := increment (RNonce c)\<rparr>, Some plaintext))"

definition Seal :: "aeadTunnel \<Rightarrow> nat \<Rightarrow> byte list \<Rightarrow> aeadTunnel" where
  "Seal c off plaintext =
     c\<lparr>buffer := append_at off (aeadSeal (WAEAD c) (WNonce c) plaintext) (buffer c),
       WNonce := increment (WNonce c)\<rparr>"

subsection \<open>Read\<close>

text \<open>\<^verbatim>\<open>(int(raw[0])<<8 + int(raw[1])) & MaxPayload\<close>\<close>

definition payload_size :: "byte \<Rightarrow> byte \<Rightarrow> nat" where
  "payload_size r0 r1 = (push_bit 8 (unat r0) + unat r1) AND MaxPayload"

text \<open>
  \<^verbatim>\<open>io.ReadFull(c.ReadWriter, c.buffer[0:k])\<close>: the bytes read overwrite the start of the
  scratch array.
\<close>

definition fill :: "aeadTunnel \<Rightarrow> nat \<Rightarrow> aeadTunnel \<times> error option" where
  "fill c k =
     (case ReadFull k (incoming (rw c)) of (got, rest, err) \<Rightarrow>
        (c\<lparr>rw := (rw c)\<lparr>incoming := rest\<rparr>,
           buffer := got @ drop (length got) (buffer c)\<rparr>, err))"

text \<open>
  \<^verbatim>\<open>Read(p)\<close> with \<open>m = len(p)\<close>. The result is the tunnel, the bytes stored at the start
  of \<^verbatim>\<open>p\<close> (their number is the \<^verbatim>\<open>n\<close> returned) and the error.
  \<open>read_frame\<close> is the part after the cache: \<open>out\<close> holds the \<^verbatim>\<open>n\<close> bytes already copied.
\<close>

definition read_frame :: "aeadTunnel \<Rightarrow> nat \<Rightarrow> byte list \<Rightarrow>
    (aeadTunnel \<times> byte list \<times> error option) outcome" where
  "read_frame c m out =
     (if length (buffer c) < 2 + Overhead (RAEAD c) then Panic
      else case fill c (2 + Overhead (RAEAD c)) of
        (c1, Some e) \<Rightarrow> Return (c1, out, Some e)
      | (c1, None) \<Rightarrow>
         (case Open c1 0 (take (2 + Overhead (RAEAD c1)) (buffer c1)) of
            (c2, None) \<Rightarrow> Return (c2, out, Some ErrOpen)
          | (c2, Some _) \<Rightarrow>
             (let size = payload_size (buffer c2 ! 0) (buffer c2 ! 1) in
              if length (buffer c2) < size + Overhead (RAEAD c2) then Panic
              else case fill c2 (size + Overhead (RAEAD c2)) of
                (c3, Some e) \<Rightarrow> Return (c3, out, Some e)
              | (c3, None) \<Rightarrow>
                 (case Open c3 0 (take (size + Overhead (RAEAD c3)) (buffer c3)) of
                    (c4, None) \<Rightarrow> Return (c4, out, Some ErrOpen)
                  | (c4, Some _) \<Rightarrow>
                     (let nn = min (m - length out) size;
                          c5 = (if size - nn > 0
                                then c4\<lparr>cache_off := nn, cache_len := size - nn\<rparr>
                                else c4)
                      in Return (c5, out @ take nn (buffer c4), None))))))"

definition Read :: "aeadTunnel \<Rightarrow> nat \<Rightarrow> (aeadTunnel \<times> byte list \<times> error option) outcome" where
  "Read c m =
     (if cache_len c > 0 then
        (let n = min m (cache_len c);
             c' = c\<lparr>cache_off := cache_off c + n, cache_len := cache_len c - n\<rparr>
         in if n = m then Return (c', take n (cache c), None)
            else read_frame c' m (take n (cache c)))
      else read_frame c m [])"

subsection \<open>Write\<close>

text \<open>\<^verbatim>\<open>[]byte{byte(size >> 8), byte(size)}\<close>\<close>

definition length_field :: "nat \<Rightarrow> byte list" where
  "length_field n = [of_nat (drop_bit 8 n), of_nat n]"

definition "write" :: "aeadTunnel \<Rightarrow> byte list \<Rightarrow> (aeadTunnel \<times> nat \<times> error option) outcome" where
  "write c p =
     (if length p > MaxPayload then Return (c, 0, Some ErrTooLarge)
      else
        let size = length p;
            k = 2 + Overhead (WAEAD c) + size + Overhead (WAEAD c)
        in if length (buffer c) < k then Panic
           else
             let c1 = Seal c 0 (length_field size);
                 c2 = Seal c1 (2 + Overhead (WAEAD c1)) p
             in case conn_Write (rw c2) (take k (buffer c2)) of
                  (s, Some e) \<Rightarrow> Return (c2\<lparr>rw := s\<rparr>, 0, Some e)
                | (s, None) \<Rightarrow> Return (c2\<lparr>rw := s\<rparr>, size, None))"

function Write_loop :: "aeadTunnel \<Rightarrow> byte list \<Rightarrow> nat \<Rightarrow> nat \<Rightarrow>
    (aeadTunnel \<times> nat \<times> error option) outcome" where
  "Write_loop c p i n =
     (if i * MaxPayload < length p then
        (let end = (if (i + 1) * MaxPayload > length p then length p else (i + 1) * MaxPayload)
         in case write c (take (end - i * MaxPayload) (drop (i * MaxPayload) p)) of
              Panic \<Rightarrow> Panic
            | Return (c', nn, Some e) \<Rightarrow> Return (c', n + nn, Some e)
            | Return (c', nn, None) \<Rightarrow> Write_loop c' p (i + 1) (n + nn))
      else Return (c, n, None))"
  by pat_completeness auto
termination
  by (relation "measure (\<lambda>(c, p, i, n). length p - i * MaxPayload)")
     (auto simp: MaxPayload_def)

definition Write :: "aeadTunnel \<Rightarrow> byte list \<Rightarrow> (aeadTunnel \<times> nat \<times> error option) outcome" where
  "Write c p = Write_loop c p 0 0"

subsection \<open>Subkey derivation and the handshake\<close>

text \<open>
  \<^verbatim>\<open>hkdf.New(sha1.New, secret, salt, info)\<close> is a reader of the library
  \<^verbatim>\<open>golang.org/x/crypto/hkdf\<close>; the parameter \<open>hk\<close> gives the finite sequence of bytes it
  yields. \<^verbatim>\<open>hkdfSHA1\<close> fills \<^verbatim>\<open>outkey\<close> (of length \<open>n\<close>) from it and panics when
  \<^verbatim>\<open>io.ReadFull\<close> returns an error.
\<close>

definition hkdfSHA1 :: "(byte list \<Rightarrow> byte list \<Rightarrow> byte list \<Rightarrow> byte list) \<Rightarrow>
    byte list \<Rightarrow> byte list \<Rightarrow> byte list \<Rightarrow> nat \<Rightarrow> byte list outcome" where
  "hkdfSHA1 hk secret salt info n =
     (case ReadFull n (hk secret salt info) of
        (outkey, _, None) \<Rightarrow> Return outkey
      | (_, _, Some err) \<Rightarrow> Panic)"

text \<open>The descriptor \<^verbatim>\<open>aead\<close>; \<open>'blk\<close> stands for \<^verbatim>\<open>cipher.Block\<close>.\<close>

record 'blk aead =
  key :: "byte list"
  KeySize :: nat
  SaltSize :: nat
  NonceSize :: nat
  TagSize :: nat
  NewCipher :: "byte list \<Rightarrow> error + 'blk"
  NewAEAD :: "'blk \<Rightarrow> error + AEAD"

definition ss_subkey :: "byte list" where
  "ss_subkey = map (\<lambda>ch. of_nat (of_char ch)) ''ss-subkey''"

text \<open>
  \<^verbatim>\<open>Shadow(rw)\<close>. \<open>rnd\<close> holds the bytes \<^verbatim>\<open>rand.Reader\<close> yields. The result is the
  returned error or the tunnel.
\<close>

definition Shadow :: "(byte list \<Rightarrow> byte list \<Rightarrow> byte list \<Rightarrow> byte list) \<Rightarrow> byte list \<Rightarrow>
    'blk aead \<Rightarrow> conn \<Rightarrow> (error + aeadTunnel) outcome" where
  "Shadow hk rnd p s =
     (case ReadFull (SaltSize p) (incoming s) of
        (_, _, Some err) \<Rightarrow> Return (Inl err)
      | (salt, rest, None) \<Rightarrow>
     (case hkdfSHA1 hk (key p) salt ss_subkey (KeySize p) of
        Panic \<Rightarrow> Panic
      | Return k1 \<Rightarrow>
     (case NewCipher p k1 of
        Inl err \<Rightarrow> Return (Inl err)
      | Inr block1 \<Rightarrow>
     (case NewAEAD p block1 of
        Inl err \<Rightarrow> Return (Inl err)
      | Inr AEADClient \<Rightarrow>
     (case ReadFull (SaltSize p) rnd of
        (_, _, Some err) \<Rightarrow> Return (Inl err)
      | (salt2, _, None) \<Rightarrow>
     (case conn_Write (s\<lparr>incoming := rest\<rparr>) salt2 of
        (_, Some err) \<Rightarrow> Return (Inl err)
      | (s2, None) \<Rightarrow>
     (case hkdfSHA1 hk (key p) salt2 ss_subkey (KeySize p) of
        Panic \<Rightarrow> Panic
      | Return k2 \<Rightarrow>
     (case NewCipher p k2 of
        Inl err \<Rightarrow> Return (Inl err)
      | Inr block2 \<Rightarrow>
     (case NewAEAD p block2 of
        Inl err \<Rightarrow> Return (Inl err)
      | Inr AEADServer \<Rightarrow>
          Return (Inr \<lparr>rw = s2, RAEAD = AEADClient, WAEAD = AEADServer,
                       RNonce = replicate (NonceSize p) 0,
                       WNonce = replicate (NonceSize p) 0,
                       buffer = replicate (2 + Overhead AEADClient + MaxPayload
                                           + Overhead AEADClient) 0,
                       cache_off = 0, cache_len = 0\<rparr>))))))))))"

subsection \<open>Notions used to state the properties\<close>

text \<open>
  What the interface \<^verbatim>\<open>cipher.AEAD\<close> promises: sealing adds \<open>Overhead\<close> bytes, and
  opening under the same nonce gives the plaintext back.
\<close>

definition aead_ok :: "AEAD \<Rightarrow> bool" where
  "aead_ok A = (\<forall>nonce pt. length (aeadSeal A nonce pt) = length pt + Overhead A
                            \<and> aeadOpen A nonce (aeadSeal A nonce pt) = Some pt)"

text \<open>The scratch array has the size \<^verbatim>\<open>Shadow\<close> gives it.\<close>

definition scratch_ok :: "aeadTunnel \<Rightarrow> bool" where
  "scratch_ok c = (length (buffer c) = 2 + Overhead (RAEAD c) + MaxPayload + Overhead (RAEAD c))"

text \<open>The consecutive pieces of at most \<open>MaxPayload\<close> bytes of a byte sequence.\<close>

function pieces :: "byte list \<Rightarrow> byte list list" where
  "pieces p = (if p = [] then [] else take MaxPayload p # pieces (drop MaxPayload p))"
  by pat_completeness auto
termination
  by (relation "measure length") (auto simp: MaxPayload_def)

text \<open>The wire chunk of one piece under a nonce, and the chunks of a list of pieces.\<close>

definition frame :: "AEAD \<Rightarrow> byte list \<Rightarrow> byte list \<Rightarrow> byte list" where
  "frame A nonce piece =
     aeadSeal A nonce (length_field (length piece)) @ aeadSeal A (increment nonce) piece"

fun frames :: "AEAD \<Rightarrow> byte list \<Rightarrow> byte list list \<Rightarrow> byte list list" where
  "frames A nonce [] = []"
| "frames A nonce (x # xs) = frame A nonce x # frames A (increment (increment nonce)) xs"

text \<open>The number of stream writes a call of \<open>Write\<close> makes that the stream accepts.\<close>

definition chunks_emitted :: "aeadTunnel \<Rightarrow> byte list \<Rightarrow> nat" where
  "chunks_emitted c p =
     (case Write c p of
        Return (c', _, _) \<Rightarrow> length (outgoing (rw c')) - length (outgoing (rw c))
      | Panic \<Rightarrow> 0)"

text \<open>The bytes a call of \<open>Write\<close> puts on the stream.\<close>

definition wire_of :: "aeadTunnel \<Rightarrow> byte list \<Rightarrow> byte list" where
  "wire_of c p =
     (case Write c p of
        Return (c', _, _) \<Rightarrow> concat (drop (length (outgoing (rw c))) (outgoing (rw c')))
      | Panic \<Rightarrow> [])"

text \<open>
  A caller reading with buffers of the sizes \<open>ms\<close>, one call each, until a call returns an
  error: the bytes it has received, in order.
\<close>

fun reads :: "aeadTunnel \<Rightarrow> nat list \<Rightarrow> byte list" where
  "reads c [] = []"
| "reads c (m # ms) =
     (case Read c m of
        Panic \<Rightarrow> []
      | Return (c', out, Some err) \<Rightarrow> out
      | Return (c', out, None) \<Rightarrow> out @ reads c' ms)"

text \<open>Calling \<open>Open\<close> on each of a list of ciphertexts, and \<open>Seal\<close> on each of a list of plaintexts.\<close>

fun opens :: "aeadTunnel \<Rightarrow> byte list list \<Rightarrow> aeadTunnel" where
  "opens c [] = c"
| "opens c (x # xs) = opens (fst (Open c 0 x)) xs"

fun seals :: "aeadTunnel \<Rightarrow> byte list list \<Rightarrow> aeadTunnel" where
  "seals c [] = c"
| "seals c (x # xs) = seals (Seal c 0 x) xs"

text \<open>
  The state of a reader between two calls of \<open>Read\<close>, for the proofs: its stream holds the
  chunks of the pieces \<open>ps\<close> sealed from its read nonce on, and its cache lies inside the
  scratch array.
\<close>

definition reading :: "AEAD \<Rightarrow> aeadTunnel \<Rightarrow> byte list list \<Rightarrow> bool" where
  "reading A c ps =
     (aead_ok A \<and> RAEAD c = A \<and> scratch_ok c \<and> length (cache c) = cache_len c \<and>
      incoming (rw c) = concat (frames A (RNonce c) ps) \<and>
      (\<forall>x \<in> set ps. x \<noteq> [] \<and> length x \<le> MaxPayload))"

subsection \<open>A small cipher suite and tunnel for concrete runs\<close>

definition toy_tag :: "byte list \<Rightarrow> byte" where
  "toy_tag nonce = foldr (+) nonce 7"

definition toy :: AEAD where
  "toy = \<lparr>Overhead = 1,
          aeadSeal = (\<lambda>nonce pt. map (\<lambda>b. b + 1) pt @ [toy_tag nonce]),
          aeadOpen = (\<lambda>nonce ct. if ct \<noteq> [] \<and> last ct = toy_tag nonce
                                 then Some (map (\<lambda>b. b - 1) (butlast ct)) else None)\<rparr>"

definition toy_hk :: "byte list \<Rightarrow> byte list \<Rightarrow> byte list \<Rightarrow> byte list" where
  "toy_hk secret salt info = secret @ salt"

definition toy_suite :: "byte list aead" where
  "toy_suite = \<lparr>key = [1, 2, 3], KeySize = 4, SaltSize = 2, NonceSize = 12, TagSize = 1,
                NewCipher = (\<lambda>k. Inr k), NewAEAD = (\<lambda>block. Inr toy)\<rparr>"

definition toy_conn :: "byte list \<Rightarrow> conn" where
  "toy_conn bs = \<lparr>incoming = bs, outgoing = [], wcredit = 100\<rparr>"

definition toy_tunnel :: "byte list \<Rightarrow> aeadTunnel" where
  "toy_tunnel bs =
     \<lparr>rw = toy_conn bs, RAEAD = toy, WAEAD = toy,
      RNonce = replicate 12 0, WNonce = replicate 12 0,
      buffer = replicate (2 + 1 + MaxPayload + 1) 0,
      cache_off = 0, cache_len = 0\<rparr>"

section \<open>Properties\<close>

subsection \<open>Bytes, the counter and the length field\<close>

lemma unat_byte_lt: "unat (b :: byte) < 256"
  using unsigned_less [of b, where ?'a = nat] by simp

lemma unat_byte_succ: "unat (b + 1 :: byte) = (unat b + 1) mod 256"
  by (simp add: unat_word_ariths)

lemma byte_succ_zero_iff: "(b + 1 = 0) = (unat (b :: byte) = 255)"
proof -
  have "(b + 1 = 0) = (unat (b + 1) = 0)" by (simp add: unsigned_eq_0_iff)
  also have "\<dots> = (unat b = 255)"
    using unat_byte_lt [of b] by (simp add: unat_byte_succ mod_eq_0_iff_dvd) presburger
  finally show ?thesis .
qed

lemma le_val_bound: "le_val bs < 256 ^ length bs"
proof (induction bs)
  case Nil show ?case by simp
next
  case (Cons b bs)
  from Cons have "256 * le_val bs + 256 \<le> 256 * 256 ^ length bs" by simp
  with unat_byte_lt [of b] show ?case by simp
qed

lemma length_increment [simp]: "length (increment bs) = length bs"
  by (induction bs) auto

lemma le_val_increment: "le_val (increment bs) = (le_val bs + 1) mod 256 ^ length bs"
proof (induction bs)
  case Nil show ?case by simp
next
  case (Cons b bs)
  show ?case
  proof (cases "b + 1 = 0")
    case False
    then have ne: "unat b \<noteq> 255" by (simp add: byte_succ_zero_iff)
    with unat_byte_lt [of b] have lt: "unat b < 255" by simp
    then have u: "unat (b + 1) = unat b + 1" by (simp add: unat_byte_succ)
    have "le_val bs + 1 \<le> 256 ^ length bs" using le_val_bound [of bs] by simp
    then have "256 * le_val bs + 256 \<le> 256 * 256 ^ length bs" by simp
    with lt have "unat b + 256 * le_val bs + 1 < 256 * 256 ^ length bs" by simp
    then show ?thesis using False u by simp
  next
    case True
    then have b: "unat b = 255" by (simp add: byte_succ_zero_iff)
    have "256 * ((le_val bs + 1) mod 256 ^ length bs) = (256 * (le_val bs + 1)) mod (256 * 256 ^ length bs)"
      by (simp add: mult_mod_right)
    then show ?thesis using True Cons b by simp
  qed
qed

lemma and_MaxPayload: "x AND (16383::nat) = x mod 16384"
proof -
  have m: "(mask 14 :: nat) = 16383" by (simp add: mask_eq_exp_minus_1)
  have "x AND (mask 14 :: nat) = x mod 2 ^ 14"
    by (simp only: take_bit_eq_mod flip: take_bit_eq_mask)
  then show ?thesis by (simp only: m) simp
qed

lemma payload_size_mod: "payload_size a b = (unat a * 256 + unat b) mod 16384"
  by (simp add: payload_size_def MaxPayload_def push_bit_eq_mult and_MaxPayload)

lemma payload_size_le: "payload_size a b \<le> MaxPayload"
  by (simp add: payload_size_mod MaxPayload_def)

lemma payload_size_length_field:
  assumes "n \<le> MaxPayload"
  shows "payload_size (length_field n ! 0) (length_field n ! 1) = n"
proof -
  from assms have n: "n < 16384" by (simp add: MaxPayload_def)
  then have d: "n div 256 < 256" by simp
  have "unat (of_nat (n div 256) :: byte) = n div 256"
    using d by (simp add: unat_of_nat)
  moreover have "unat (of_nat n :: byte) = n mod 256"
    by (simp add: unat_of_nat)
  ultimately show ?thesis
    using n by (simp add: payload_size_mod length_field_def drop_bit_eq_div)
qed

lemma length_length_field [simp]: "length (length_field n) = 2"
  by (simp add: length_field_def)

lemma length_append_at [simp]: "length (append_at off src buf) = length buf"
  by (simp add: append_at_def)

lemma append_at_0: "length src \<le> length buf \<Longrightarrow> append_at 0 src buf = src @ drop (length src) buf"
  by (simp add: append_at_def)

lemma append_at_twice:
  "length h + length b \<le> length buf \<Longrightarrow>
   append_at (length h) b (append_at 0 h buf) = h @ b @ drop (length h + length b) buf"
  by (simp add: append_at_def add.commute)

lemma write_ok:
  assumes sz: "length p \<le> MaxPayload"
    and seal: "\<forall>nonce pt. length (aeadSeal (WAEAD c) nonce pt) = length pt + Overhead (WAEAD c)"
    and buf: "2 + Overhead (WAEAD c) + length p + Overhead (WAEAD c) \<le> length (buffer c)"
  shows "write c p =
    (let w = frame (WAEAD c) (WNonce c) p;
         c2 = c\<lparr>buffer := w @ drop (length w) (buffer c),
                WNonce := increment (increment (WNonce c))\<rparr>
     in if wcredit (rw c) = 0 then Return (c2, 0, Some ErrWrite)
        else Return (c2\<lparr>rw := (rw c)\<lparr>outgoing := outgoing (rw c) @ [w],
                                       wcredit := wcredit (rw c) - 1\<rparr>\<rparr>, length p, None))"
proof -
  let ?A = "WAEAD c"
  let ?h = "aeadSeal ?A (WNonce c) (length_field (length p))"
  let ?b = "aeadSeal ?A (increment (WNonce c)) p"
  have lh: "length ?h = 2 + Overhead ?A" using seal by simp
  have lb: "length ?b = length p + Overhead ?A" using seal by simp
  have off: "2 + Overhead ?A = length ?h" using lh by simp
  have fit: "length ?h + length ?b \<le> length (buffer c)" using buf lh lb by simp
  have s2: "Seal (Seal c 0 (length_field (length p))) (2 + Overhead ?A) p =
      c\<lparr>buffer := ?h @ ?b @ drop (length ?h + length ?b) (buffer c),
        WNonce := increment (increment (WNonce c))\<rparr>"
    unfolding off by (simp add: Seal_def append_at_twice [OF fit])
  have k: "2 + Overhead ?A + length p + Overhead ?A = length ?h + length ?b"
    using lh lb by simp
  have w: "WAEAD (Seal c 0 (length_field (length p))) = ?A" by (simp add: Seal_def)
  show ?thesis
    unfolding write_def Let_def w s2 k frame_def conn_Write_def
    using sz fit by simp
qed

subsection \<open>The small cipher suite\<close>

lemma toy_tag0: "toy_tag (replicate 12 0) = 7"
  by (simp add: toy_tag_def eval_nat_numeral)

lemma inc0: "increment (replicate 12 0) = 1 # replicate 11 0"
  by (simp add: eval_nat_numeral)

lemma toy_tag1: "toy_tag (1 # replicate 11 0) = 8"
  by (simp add: toy_tag_def eval_nat_numeral)

lemma toy_ok: "aead_ok toy"
  by (simp add: aead_ok_def toy_def comp_def)

subsection \<open>The write loop\<close>

declare Write_loop.simps [simp del] pieces.simps [simp del]

lemma pieces_Nil [simp]: "pieces [] = []"
  by (subst pieces.simps) simp

lemma pieces_nonempty: "p \<noteq> [] \<Longrightarrow> pieces p = take MaxPayload p # pieces (drop MaxPayload p)"
  by (subst pieces.simps) simp

lemma Write_loop_done: "\<not> i * MaxPayload < length p \<Longrightarrow> Write_loop c p i n = Return (c, n, None)"
  by (subst Write_loop.simps) simp

lemma Write_loop_step:
  "i * MaxPayload < length p \<Longrightarrow>
   Write_loop c p i n =
     (case write c (take MaxPayload (drop (i * MaxPayload) p)) of
        Panic \<Rightarrow> Panic
      | Return (c', nn, Some e) \<Rightarrow> Return (c', n + nn, Some e)
      | Return (c', nn, None) \<Rightarrow> Write_loop c' p (i + 1) (n + nn))"
proof -
  assume a: "i * MaxPayload < length p"
  have "take ((if length p < (i + 1) * MaxPayload then length p else (i + 1) * MaxPayload)
               - i * MaxPayload) (drop (i * MaxPayload) p)
        = take MaxPayload (drop (i * MaxPayload) p)"
    by (simp add: min_def)
  then show ?thesis
    using a by (subst Write_loop.simps) (simp add: Let_def)
qed

lemma length_take_le: "length (take MaxPayload xs) \<le> MaxPayload"
  by simp

lemma Write_loop_run:
  assumes seal: "\<forall>nonce pt. length (aeadSeal (WAEAD c) nonce pt) = length pt + Overhead (WAEAD c)"
    and buf: "2 + Overhead (WAEAD c) + MaxPayload + Overhead (WAEAD c) \<le> length (buffer c)"
  shows "\<exists>c'. Write_loop c p i n =
            Return (c', n + length (concat (take (wcredit (rw c)) (pieces (drop (i * MaxPayload) p)))),
                    if wcredit (rw c) < length (pieces (drop (i * MaxPayload) p))
                    then Some ErrWrite else None)
        \<and> outgoing (rw c') = outgoing (rw c) @
             frames (WAEAD c) (WNonce c) (take (wcredit (rw c)) (pieces (drop (i * MaxPayload) p)))
        \<and> WNonce c' = ((increment \<circ> increment) ^^
             min (Suc (wcredit (rw c))) (length (pieces (drop (i * MaxPayload) p)))) (WNonce c)"
  using seal buf
proof (induction "length p - i * MaxPayload" arbitrary: c i n rule: less_induct)
  case less
  let ?A = "WAEAD c"
  let ?d = "drop (i * MaxPayload) p"
  show ?case
  proof (cases "i * MaxPayload < length p")
    case False
    then show ?thesis by (simp add: Write_loop_done)
  next
    case True
    let ?x = "take MaxPayload ?d"
    let ?w = "frame ?A (WNonce c) ?x"
    let ?c2 = "c\<lparr>buffer := ?w @ drop (length ?w) (buffer c),
                  WNonce := increment (increment (WNonce c))\<rparr>"
    from True have ne: "?d \<noteq> []" by simp
    have ps: "pieces ?d = ?x # pieces (drop ((i + 1) * MaxPayload) p)"
      using pieces_nonempty [OF ne] by (simp add: add.commute)
    have fits: "2 + Overhead ?A + length ?x + Overhead ?A \<le> length (buffer c)"
      using less.prems(2) length_take_le [of ?d] by linarith
    note w = write_ok [OF length_take_le less.prems(1) fits]
    note st = Write_loop_step [OF True, of c n]
    show ?thesis
    proof (cases "wcredit (rw c) = 0")
      case True
      then show ?thesis
        unfolding st w Let_def ps by simp
    next
      case False
      let ?c3 = "?c2\<lparr>rw := (rw c)\<lparr>outgoing := outgoing (rw c) @ [?w],
                                     wcredit := wcredit (rw c) - 1\<rparr>\<rparr>"
      have step: "Write_loop c p i n = Write_loop ?c3 p (i + 1) (n + length ?x)"
        unfolding st w Let_def using False by simp
      have dec: "length p - (i + 1) * MaxPayload < length p - i * MaxPayload"
        using True by (simp add: MaxPayload_def)
      have "\<exists>c'. Write_loop ?c3 p (i + 1) (n + length ?x) =
            Return (c', n + length ?x + length (concat (take (wcredit (rw ?c3)) (pieces (drop ((i + 1) * MaxPayload) p)))),
                    if wcredit (rw ?c3) < length (pieces (drop ((i + 1) * MaxPayload) p))
                    then Some ErrWrite else None)
        \<and> outgoing (rw c') = outgoing (rw ?c3) @
             frames (WAEAD ?c3) (WNonce ?c3) (take (wcredit (rw ?c3)) (pieces (drop ((i + 1) * MaxPayload) p)))
        \<and> WNonce c' = ((increment \<circ> increment) ^^
             min (Suc (wcredit (rw ?c3))) (length (pieces (drop ((i + 1) * MaxPayload) p)))) (WNonce ?c3)"
        by (rule less.hyps [OF dec]) (use less.prems in simp_all)
      then obtain c' where
        r: "Write_loop ?c3 p (i + 1) (n + length ?x) =
            Return (c', n + length ?x + length (concat (take (wcredit (rw c) - 1) (pieces (drop ((i + 1) * MaxPayload) p)))),
                    if wcredit (rw c) - 1 < length (pieces (drop ((i + 1) * MaxPayload) p))
                    then Some ErrWrite else None)"
        and o: "outgoing (rw c') = (outgoing (rw c) @ [?w]) @
             frames ?A (increment (increment (WNonce c))) (take (wcredit (rw c) - 1) (pieces (drop ((i + 1) * MaxPayload) p)))"
        and nn: "WNonce c' = ((increment \<circ> increment) ^^
             min (Suc (wcredit (rw c) - 1)) (length (pieces (drop ((i + 1) * MaxPayload) p)))) (increment (increment (WNonce c)))"
        by auto
      obtain k where k: "wcredit (rw c) = Suc k" using False by (cases "wcredit (rw c)") auto
      have "Write_loop c p i n =
            Return (c', n + length (concat (take (wcredit (rw c)) (pieces ?d))),
                    if wcredit (rw c) < length (pieces ?d) then Some ErrWrite else None)"
        unfolding step r ps using k by simp
      moreover have "outgoing (rw c') = outgoing (rw c) @
             frames ?A (WNonce c) (take (wcredit (rw c)) (pieces ?d))"
        unfolding o ps using k by simp
      moreover have "WNonce c' = ((increment \<circ> increment) ^^
             min (Suc (wcredit (rw c))) (length (pieces ?d))) (WNonce c)"
        unfolding nn ps using k by (simp add: funpow_swap1)
      ultimately show ?thesis by blast
    qed
  qed
qed

lemma length_pieces: "length (pieces p) = (length p + MaxPayload - 1) div MaxPayload"
proof (induction p rule: pieces.induct)
  case (1 p)
  show ?case
  proof (cases "p = []")
    case True
    then show ?thesis by (simp add: MaxPayload_def)
  next
    case False
    then have ih: "length (pieces (drop MaxPayload p)) = (length p - MaxPayload + MaxPayload - 1) div MaxPayload"
      using 1 by simp
    from False have pos: "0 < length p" by simp
    show ?thesis
    proof (cases "MaxPayload \<le> length p")
      case True
      then have "(length p + MaxPayload - 1) div MaxPayload = Suc ((length p - 1) div MaxPayload)"
        using pos by (simp add: MaxPayload_def)
      moreover from True have "length p - MaxPayload + MaxPayload - 1 = length p - 1" by simp
      ultimately show ?thesis using False ih by (simp add: pieces_nonempty)
    next
      case False
      then have "(length p + MaxPayload - 1) div MaxPayload = 1"
        using pos by (intro div_nat_eqI) (simp_all add: MaxPayload_def Suc_le_eq)
      moreover from False have "pieces (drop MaxPayload p) = []" by simp
      ultimately show ?thesis using \<open>p \<noteq> []\<close> by (simp add: pieces_nonempty)
    qed
  qed
qed

lemma concat_pieces: "concat (pieces p) = p"
proof (induction p rule: pieces.induct)
  case (1 p)
  then show ?case by (cases "p = []") (simp_all add: pieces_nonempty)
qed

lemma pieces_bounds: "x \<in> set (pieces p) \<Longrightarrow> x \<noteq> [] \<and> length x \<le> MaxPayload"
proof (induction p rule: pieces.induct)
  case (1 p)
  show ?case
  proof (cases "p = []")
    case True
    with 1 show ?thesis by simp
  next
    case False
    with 1 show ?thesis by (auto simp: pieces_nonempty MaxPayload_def)
  qed
qed

lemma concat_take_pieces: "length (concat (take k (pieces p))) = min (k * MaxPayload) (length p)"
proof (induction p arbitrary: k rule: pieces.induct)
  case (1 p)
  show ?case
  proof (cases "p = []")
    case True
    then show ?thesis by simp
  next
    case False
    show ?thesis
    proof (cases k)
      case 0
      then show ?thesis by simp
    next
      case (Suc j)
      then show ?thesis using False 1 [OF False, of j] by (simp add: pieces_nonempty) 
    qed
  qed
qed

lemma toy_seal_length:
  "\<forall>nonce pt. length (aeadSeal (WAEAD (toy_tunnel bs)) nonce pt) = length pt + Overhead (WAEAD (toy_tunnel bs))"
  by (simp add: toy_tunnel_def toy_def)

lemma toy_buffer_fits:
  "2 + Overhead (WAEAD (toy_tunnel bs)) + MaxPayload + Overhead (WAEAD (toy_tunnel bs))
     \<le> length (buffer (toy_tunnel bs))"
  by (simp add: toy_tunnel_def toy_def)

subsection \<open>Reading one chunk\<close>

lemma fill_ok:
  "k \<le> length (incoming (rw c)) \<Longrightarrow>
   fill c k = (c\<lparr>rw := (rw c)\<lparr>incoming := drop k (incoming (rw c))\<rparr>,
                 buffer := take k (incoming (rw c)) @ drop k (buffer c)\<rparr>, None)"
  by (simp add: fill_def ReadFull_def min_def)

lemma fill_eof:
  "incoming (rw c) = [] \<Longrightarrow> 0 < k \<Longrightarrow>
   fill c k = (c\<lparr>rw := (rw c)\<lparr>incoming := []\<rparr>, buffer := buffer c\<rparr>, Some EOF)"
  by (simp add: fill_def ReadFull_def)

lemma Open_ok:
  "aeadOpen (RAEAD c) (RNonce c) ct = Some pt \<Longrightarrow> length pt \<le> length (buffer c) \<Longrightarrow>
   Open c 0 ct = (c\<lparr>buffer := pt @ drop (length pt) (buffer c),
                     RNonce := increment (RNonce c)\<rparr>, Some pt)"
  by (simp add: Open_def append_at_0)

lemma read_frame_ok:
  assumes ok: "aead_ok (RAEAD c)"
    and sc: "scratch_ok c"
    and len: "length x \<le> MaxPayload"
    and inc: "incoming (rw c) = frame (RAEAD c) (RNonce c) x @ rest"
  shows "\<exists>B. length (x @ B) = length (buffer c) \<and>
     read_frame c m out =
       Return ((if 0 < length x - min (m - length out) (length x)
                then c\<lparr>rw := (rw c)\<lparr>incoming := rest\<rparr>, buffer := x @ B,
                       RNonce := increment (increment (RNonce c)),
                       cache_off := min (m - length out) (length x),
                       cache_len := length x - min (m - length out) (length x)\<rparr>
                else c\<lparr>rw := (rw c)\<lparr>incoming := rest\<rparr>, buffer := x @ B,
                       RNonce := increment (increment (RNonce c))\<rparr>),
               out @ take (min (m - length out) (length x)) x, None)"
proof -
  let ?A = "RAEAD c"
  let ?ov = "Overhead ?A"
  let ?lf = "length_field (length x)"
  let ?h = "aeadSeal ?A (RNonce c) ?lf"
  let ?b = "aeadSeal ?A (increment (RNonce c)) x"
  have lh: "length ?h = 2 + ?ov" and lb: "length ?b = length x + ?ov"
    using ok by (simp_all add: aead_ok_def)
  have oh: "aeadOpen ?A (RNonce c) ?h = Some ?lf"
    and ob: "aeadOpen ?A (increment (RNonce c)) ?b = Some x"
    using ok by (simp_all add: aead_ok_def)
  have bl: "length (buffer c) = 2 + ?ov + MaxPayload + ?ov"
    using sc by (simp add: scratch_ok_def)
  let ?c1 = "c\<lparr>rw := (rw c)\<lparr>incoming := ?b @ rest\<rparr>,
               buffer := ?h @ drop (2 + ?ov) (buffer c)\<rparr>"
  let ?c2 = "?c1\<lparr>buffer := ?lf @ drop (length ?lf) (buffer ?c1),
                 RNonce := increment (RNonce ?c1)\<rparr>"
  let ?c3 = "?c2\<lparr>rw := (rw ?c2)\<lparr>incoming := rest\<rparr>,
                 buffer := ?b @ drop (length x + ?ov) (buffer ?c2)\<rparr>"
  let ?c4 = "?c3\<lparr>buffer := x @ drop (length x) (buffer ?c3),
                 RNonce := increment (RNonce ?c3)\<rparr>"
  have p1: "(length (buffer c) < 2 + ?ov) = False" using bl by simp
  have f1: "fill c (2 + ?ov) = (?c1, None)"
    using fill_ok [of "2 + ?ov" c] lh by (simp add: inc frame_def)
  have o1: "Open ?c1 0 (take (2 + Overhead (RAEAD ?c1)) (buffer ?c1)) = (?c2, Some ?lf)"
  proof -
    have "take (2 + Overhead (RAEAD ?c1)) (buffer ?c1) = ?h" using lh by simp
    moreover have "Open ?c1 0 ?h = (?c2, Some ?lf)"
      by (rule Open_ok) (use oh bl lh in simp_all)
    ultimately show ?thesis by simp
  qed
  have sz: "payload_size (buffer ?c2 ! 0) (buffer ?c2 ! 1) = length x"
    using payload_size_length_field [OF len] by (simp add: length_field_def)
  have p2: "(length (buffer ?c2) < length x + Overhead (RAEAD ?c2)) = False"
    using bl len lh by simp
  have f2: "fill ?c2 (length x + Overhead (RAEAD ?c2)) = (?c3, None)"
    using fill_ok [of "length x + ?ov" ?c2] lb by simp
  have o2: "Open ?c3 0 (take (length x + Overhead (RAEAD ?c3)) (buffer ?c3)) = (?c4, Some x)"
  proof -
    have "take (length x + Overhead (RAEAD ?c3)) (buffer ?c3) = ?b" using lb by simp
    moreover have "Open ?c3 0 ?b = (?c4, Some x)"
      by (rule Open_ok) (use ob bl len lh lb in simp_all)
    ultimately show ?thesis by simp
  qed
  let ?B = "drop (length x) (buffer ?c3)"
  have lB: "length (x @ ?B) = length (buffer c)" using len by (simp add: lh lb bl)
  have rf: "read_frame c m out =
     (let nn = min (m - length out) (length x);
          c5 = (if length x - nn > 0
                then ?c4\<lparr>cache_off := nn, cache_len := length x - nn\<rparr>
                else ?c4)
      in Return (c5, out @ take nn (buffer ?c4), None))"
    unfolding read_frame_def p1 if_False f1 prod.case option.case o1 Let_def [of "payload_size _ _"] sz
      p2 f2 o2 ..
  have tk: "take (min (m - length out) (length x)) (buffer ?c4) = take (min (m - length out) (length x)) x"
    by simp
  show ?thesis
    apply (rule exI [of _ "?B"])
    apply (rule conjI)
    subgoal by (rule lB)
    subgoal unfolding rf Let_def tk by simp
    done
qed

lemma read_frame_eof:
  assumes sc: "scratch_ok c" and inc: "incoming (rw c) = []"
  shows "read_frame c m out = Return (c, out, Some EOF)"
proof -
  have p1: "(length (buffer c) < 2 + Overhead (RAEAD c)) = False"
    using sc by (simp add: scratch_ok_def)
  have e: "c\<lparr>rw := (rw c)\<lparr>incoming := []\<rparr>, buffer := buffer c\<rparr> = c"
    using inc by simp
  have f: "fill c (2 + Overhead (RAEAD c)) = (c, Some EOF)"
    using fill_eof [OF inc, of "2 + Overhead (RAEAD c)"] by (simp add: e)
  show ?thesis
    unfolding read_frame_def p1 if_False f prod.case option.case ..
qed

lemma read_frame_step:
  assumes r: "reading A c ps" and z: "cache_len c = 0"
  shows "\<exists>c' o' err ps'. read_frame c m out = Return (c', out @ o', err)
           \<and> o' @ cache c' @ concat ps' = concat ps
           \<and> reading A c' ps'
           \<and> (length out < m \<longrightarrow> ps \<noteq> [] \<longrightarrow> o' \<noteq> [])
           \<and> (err \<noteq> None \<longrightarrow> cache c' @ concat ps' = [])"
proof (cases ps)
  case Nil
  from r Nil have "read_frame c m out = Return (c, out, Some EOF)"
    by (intro read_frame_eof) (simp_all add: reading_def)
  moreover from r z have "cache c = []" by (simp add: reading_def)
  ultimately have "read_frame c m out = Return (c, out @ [], Some EOF)
           \<and> [] @ cache c @ concat [] = concat ps
           \<and> reading A c []
           \<and> (length out < m \<longrightarrow> ps \<noteq> [] \<longrightarrow> ([]::byte list) \<noteq> [])
           \<and> (Some EOF \<noteq> None \<longrightarrow> cache c @ concat [] = [])"
    using r Nil by simp
  then show ?thesis by blast
next
  case (Cons x xs)
  let ?rest = "concat (frames A (increment (increment (RNonce c))) xs)"
  let ?nn = "min (m - length out) (length x)"
  from r Cons have ok: "aead_ok (RAEAD c)" and sc: "scratch_ok c"
    and len: "length x \<le> MaxPayload" and ne: "x \<noteq> []"
    and inc: "incoming (rw c) = frame (RAEAD c) (RNonce c) x @ ?rest"
    and A: "RAEAD c = A"
    and xs: "\<forall>y \<in> set xs. y \<noteq> [] \<and> length y \<le> MaxPayload"
    by (auto simp: reading_def)
  from read_frame_ok [OF ok sc len inc, of m out] obtain B c' where
    lB: "length (x @ B) = length (buffer c)"
    and c': "c' = (if 0 < length x - ?nn
                then c\<lparr>rw := (rw c)\<lparr>incoming := ?rest\<rparr>, buffer := x @ B,
                       RNonce := increment (increment (RNonce c)),
                       cache_off := ?nn, cache_len := length x - ?nn\<rparr>
                else c\<lparr>rw := (rw c)\<lparr>incoming := ?rest\<rparr>, buffer := x @ B,
                       RNonce := increment (increment (RNonce c))\<rparr>)"
    and rf: "read_frame c m out = Return (c', out @ take ?nn x, None)"
    by blast
  have ca: "cache c' = drop ?nn x \<and> length (cache c') = cache_len c'"
  proof (cases "m - length out < length x")
    case True
    then have nn: "?nn = m - length out" by simp
    show ?thesis unfolding c' nn using True by (simp add: cache_def)
  next
    case False
    then have nn: "?nn = length x" by simp
    show ?thesis unfolding c' nn using z by (simp add: cache_def)
  qed
  have rest: "incoming (rw c') = ?rest" and n': "RNonce c' = increment (increment (RNonce c))"
    and A': "RAEAD c' = A" and b': "length (buffer c') = length (buffer c)"
    using lB A by (simp_all add: c')
  from ca have ca1: "cache c' = drop ?nn x" and ca2: "length (cache c') = cache_len c'"
    by blast+
  have r': "reading A c' xs"
    using ok A sc xs ca2 rest b' A' n' by (simp add: reading_def scratch_ok_def)
  have "take ?nn x @ cache c' @ concat xs = concat ps" using ca1 Cons by simp
  moreover have "length out < m \<longrightarrow> take ?nn x \<noteq> []" using ne by simp
  ultimately show ?thesis using rf r' by blast
qed

subsection \<open>A sequence of reads\<close>

lemma cache_advance:
  "cache (c\<lparr>cache_off := cache_off c + n, cache_len := cache_len c - n\<rparr>) = drop n (cache c)"
  by (simp add: cache_def drop_take add.commute)

lemma Read_step:
  assumes r: "reading A c ps"
  shows "\<exists>c' out err ps'. Read c m = Return (c', out, err)
           \<and> out @ cache c' @ concat ps' = cache c @ concat ps
           \<and> reading A c' ps'
           \<and> (0 < m \<longrightarrow> cache c @ concat ps \<noteq> [] \<longrightarrow> out \<noteq> [])
           \<and> (err \<noteq> None \<longrightarrow> cache c' @ concat ps' = [])"
proof (cases "0 < cache_len c")
  case False
  then have z: "cache_len c = 0" by simp
  with r have e: "cache c = []" by (simp add: reading_def)
  have rd: "Read c m = read_frame c m []" using z by (simp add: Read_def)
  from read_frame_step [OF r z, of m "[]"] obtain c' o' err ps' where
    1: "read_frame c m [] = Return (c', [] @ o', err)"
    and 2: "o' @ cache c' @ concat ps' = concat ps" and 3: "reading A c' ps'"
    and 4: "length ([]::byte list) < m \<longrightarrow> ps \<noteq> [] \<longrightarrow> o' \<noteq> []"
    and 5: "err \<noteq> None \<longrightarrow> cache c' @ concat ps' = []"
    by blast
  have a: "Read c m = Return (c', o', err)" using 1 rd by simp
  have b: "o' @ cache c' @ concat ps' = cache c @ concat ps" using 2 e by simp
  have d: "0 < m \<longrightarrow> cache c @ concat ps \<noteq> [] \<longrightarrow> o' \<noteq> []" using 4 e by auto
  from a b 3 d 5 show ?thesis by blast
next
  case True
  let ?n = "min m (cache_len c)"
  let ?c1 = "c\<lparr>cache_off := cache_off c + ?n, cache_len := cache_len c - ?n\<rparr>"
  from r have lc: "length (cache c) = cache_len c" by (simp add: reading_def)
  have c1: "cache ?c1 = drop ?n (cache c)" by (rule cache_advance)
  have sc1: "scratch_ok ?c1" using r by (simp add: reading_def scratch_ok_def)
  have l1: "length (cache ?c1) = cache_len ?c1" unfolding c1 using lc by simp
  have r1: "reading A ?c1 ps"
    unfolding reading_def using r sc1 l1 by (simp add: reading_def)
  show ?thesis
  proof (cases "?n = m")
    case True
    then have rd: "Read c m = Return (?c1, take ?n (cache c), None)"
      using \<open>0 < cache_len c\<close> by (simp add: Read_def Let_def)
    have "take ?n (cache c) @ cache ?c1 @ concat ps = cache c @ concat ps"
      unfolding c1 by simp
    moreover have "0 < m \<longrightarrow> take ?n (cache c) \<noteq> []"
      using True lc \<open>0 < cache_len c\<close> by auto
    ultimately show ?thesis using rd r1 by blast
  next
    case False
    then have n: "?n = cache_len c" by (simp add: min_def split: if_splits)
    have rd: "Read c m = read_frame ?c1 m (take ?n (cache c))"
      unfolding Read_def Let_def using \<open>0 < cache_len c\<close> False
      by (simp only: if_True if_False)
    have tk: "take ?n (cache c) = cache c" using n lc by simp
    have z1: "cache_len ?c1 = 0" using n by simp
    have ne: "cache c \<noteq> []" using lc True by auto
    from read_frame_step [OF r1 z1, of m "cache c"] obtain c' o' err ps' where
      1: "read_frame ?c1 m (cache c) = Return (c', cache c @ o', err)"
      and 2: "o' @ cache c' @ concat ps' = concat ps" and 3: "reading A c' ps'"
      and 5: "err \<noteq> None \<longrightarrow> cache c' @ concat ps' = []"
      by blast
    have a: "Read c m = Return (c', cache c @ o', err)" unfolding rd tk by (rule 1)
    have b: "(cache c @ o') @ cache c' @ concat ps' = cache c @ concat ps" using 2 by simp
    have d: "0 < m \<longrightarrow> cache c @ concat ps \<noteq> [] \<longrightarrow> cache c @ o' \<noteq> []" using ne by simp
    from a b 3 d 5 show ?thesis by blast
  qed
qed

lemma reads_prefix:
  "reading A c ps \<Longrightarrow> \<exists>k. reads c ms = take k (cache c @ concat ps)"
proof (induction ms arbitrary: c ps)
  case Nil
  show ?case by (rule exI [of _ 0]) simp
next
  case (Cons m ms)
  from Read_step [OF Cons.prems, of m] obtain c' out err ps' where
    rd: "Read c m = Return (c', out, err)"
    and eq: "out @ cache c' @ concat ps' = cache c @ concat ps"
    and r': "reading A c' ps'"
    by blast
  show ?case
  proof (cases err)
    case (Some e)
    then have "reads c (m # ms) = out" by (simp add: rd)
    also have "out = take (length out) (cache c @ concat ps)" unfolding eq [symmetric] by simp
    finally show ?thesis by blast
  next
    case None
    from Cons.IH [OF r'] obtain k where k: "reads c' ms = take k (cache c' @ concat ps')" by blast
    have "reads c (m # ms) = out @ take k (cache c' @ concat ps')" using None by (simp add: rd k)
    also have "\<dots> = take (length out + k) (out @ cache c' @ concat ps')" by simp
    finally show ?thesis unfolding eq by blast
  qed
qed

lemma reads_all:
  "reading A c ps \<Longrightarrow> length (cache c @ concat ps) \<le> length (filter (\<lambda>m. 0 < m) ms) \<Longrightarrow>
   reads c ms = cache c @ concat ps"
proof (induction ms arbitrary: c ps)
  case Nil
  then show ?case by simp
next
  case (Cons m ms)
  from Read_step [OF Cons.prems(1), of m] obtain c' out err ps' where
    rd: "Read c m = Return (c', out, err)"
    and eq: "out @ cache c' @ concat ps' = cache c @ concat ps"
    and r': "reading A c' ps'"
    and pr: "0 < m \<longrightarrow> cache c @ concat ps \<noteq> [] \<longrightarrow> out \<noteq> []"
    and er: "err \<noteq> None \<longrightarrow> cache c' @ concat ps' = []"
    by blast
  have len: "length (out @ cache c' @ concat ps') = length (cache c @ concat ps)"
    by (simp only: eq)
  show ?case
  proof (cases err)
    case (Some e)
    with er have "cache c' @ concat ps' = []" by simp
    with eq have "out = cache c @ concat ps" by simp
    then show ?thesis using Some by (simp add: rd)
  next
    case None
    have "length (cache c' @ concat ps') \<le> length (filter (\<lambda>m. 0 < m) ms)"
    proof (cases "cache c @ concat ps = []")
      case True
      with eq have "out @ cache c' @ concat ps' = []" by simp
      then have "cache c' @ concat ps' = []" by simp
      then show ?thesis by (simp only: list.size)
    next
      case False
      show ?thesis
      proof (cases "0 < m")
        case True
        with pr False have "out \<noteq> []" by simp
        then obtain y ys where o: "out = y # ys" by (cases out) auto
        from True Cons.prems(2) len o show ?thesis by simp
      next
        case False
        with Cons.prems(2) len show ?thesis by simp
      qed
    qed
    from Cons.IH [OF r' this] have "reads c' ms = cache c' @ concat ps'" .
    then show ?thesis using None eq by (simp add: rd)
  qed
qed

lemma length_frames [simp]: "length (frames A nonce xs) = length xs"
  by (induction xs arbitrary: nonce) simp_all

lemma Write_ok:
  assumes "\<forall>nonce pt. length (aeadSeal (WAEAD c) nonce pt) = length pt + Overhead (WAEAD c)"
    and "2 + Overhead (WAEAD c) + MaxPayload + Overhead (WAEAD c) \<le> length (buffer c)"
    and "(length p + MaxPayload - 1) div MaxPayload \<le> wcredit (rw c)"
  shows "\<exists>c'. Write c p = Return (c', length p, None)
        \<and> outgoing (rw c') = outgoing (rw c) @ frames (WAEAD c) (WNonce c) (pieces p)"
proof -
  have t: "take (wcredit (rw c)) (pieces p) = pieces p"
    using assms(3) by (simp add: length_pieces)
  have n: "\<not> wcredit (rw c) < length (pieces p)"
    using assms(3) by (simp add: length_pieces)
  from Write_loop_run [OF assms(1,2), of p 0 0] show ?thesis
    unfolding t Write_def using n by (auto simp: concat_pieces)
qed

lemma wire_of_frames:
  assumes "\<forall>nonce pt. length (aeadSeal (WAEAD c) nonce pt) = length pt + Overhead (WAEAD c)"
    and "2 + Overhead (WAEAD c) + MaxPayload + Overhead (WAEAD c) \<le> length (buffer c)"
    and "(length p + MaxPayload - 1) div MaxPayload \<le> wcredit (rw c)"
  shows "wire_of c p = concat (frames (WAEAD c) (WNonce c) (pieces p))"
proof -
  from Write_ok [OF assms] obtain c' where
    "Write c p = Return (c', length p, None)"
    "outgoing (rw c') = outgoing (rw c) @ frames (WAEAD c) (WNonce c) (pieces p)"
    by blast
  then show ?thesis by (simp add: wire_of_def)
qed

lemma fill_keeps:
  "fill c k = (c1, e) \<Longrightarrow> k \<le> length (buffer c) \<Longrightarrow>
   length (buffer c1) = length (buffer c) \<and> RAEAD c1 = RAEAD c"
  by (auto simp: fill_def ReadFull_def split: if_splits)

lemma Open_keeps:
  "Open c off ct = (c2, r) \<Longrightarrow> length (buffer c2) = length (buffer c) \<and> RAEAD c2 = RAEAD c"
  by (auto simp: Open_def split: option.splits)

lemma read_frame_returns:
  assumes sc: "scratch_ok c"
  shows "\<exists>c' more err. read_frame c m out = Return (c', out @ more, err)"
proof -
  let ?ov = "Overhead (RAEAD c)"
  have bl: "length (buffer c) = 2 + ?ov + MaxPayload + ?ov"
    using sc by (simp add: scratch_ok_def)
  then have p1: "(length (buffer c) < 2 + ?ov) = False" by simp
  obtain c1 e1 where f1: "fill c (2 + ?ov) = (c1, e1)" by (cases "fill c (2 + ?ov)")
  from fill_keeps [OF f1] bl have k1: "length (buffer c1) = length (buffer c)" "RAEAD c1 = RAEAD c"
    by simp_all
  show ?thesis
  proof (cases e1)
    case (Some e)
    show ?thesis unfolding read_frame_def p1 if_False f1 Some prod.case option.case by simp
  next
    case None
    obtain c2 r2 where o1: "Open c1 0 (take (2 + Overhead (RAEAD c1)) (buffer c1)) = (c2, r2)"
      by (cases "Open c1 0 (take (2 + Overhead (RAEAD c1)) (buffer c1))")
    from Open_keeps [OF o1] k1 have k2: "length (buffer c2) = length (buffer c)" "RAEAD c2 = RAEAD c"
      by simp_all
    show ?thesis
    proof (cases r2)
      case None
      show ?thesis
        unfolding read_frame_def p1 if_False f1 \<open>e1 = None\<close> prod.case option.case o1 None by simp
    next
      case (Some pt)
      let ?size = "payload_size (buffer c2 ! 0) (buffer c2 ! 1)"
      have p2: "(length (buffer c2) < ?size + Overhead (RAEAD c2)) = False"
        using payload_size_le [of "buffer c2 ! 0" "buffer c2 ! 1"] k2 bl by simp
      obtain c3 e3 where f2: "fill c2 (?size + Overhead (RAEAD c2)) = (c3, e3)"
        by (cases "fill c2 (?size + Overhead (RAEAD c2))")
      show ?thesis
      proof (cases e3)
        case (Some e)
        show ?thesis
          unfolding read_frame_def p1 if_False f1 \<open>e1 = None\<close> prod.case option.case o1
            \<open>r2 = Some pt\<close> Let_def p2 f2 Some by simp
      next
        case None
        obtain c4 r4 where o2: "Open c3 0 (take (?size + Overhead (RAEAD c3)) (buffer c3)) = (c4, r4)"
          by (cases "Open c3 0 (take (?size + Overhead (RAEAD c3)) (buffer c3))")
        show ?thesis
          unfolding read_frame_def p1 if_False f1 \<open>e1 = None\<close> prod.case option.case o1
            \<open>r2 = Some pt\<close> Let_def p2 f2 None o2
          by (cases r4) simp_all
      qed
    qed
  qed
qed

subsection \<open>What each operation changes\<close>

lemma fill_effect:
  "fill c k = (c1, e) \<Longrightarrow>
   WNonce c1 = WNonce c \<and> WAEAD c1 = WAEAD c \<and> RAEAD c1 = RAEAD c \<and> RNonce c1 = RNonce c \<and>
   outgoing (rw c1) = outgoing (rw c) \<and> wcredit (rw c1) = wcredit (rw c)"
  by (auto simp: fill_def ReadFull_def split: if_splits)

lemma Open_effect:
  "Open c off ct = (c2, r) \<Longrightarrow>
   WNonce c2 = WNonce c \<and> WAEAD c2 = WAEAD c \<and> RAEAD c2 = RAEAD c \<and>
   RNonce c2 = increment (RNonce c) \<and> rw c2 = rw c"
  by (auto simp: Open_def split: option.splits)

lemma Seal_effect:
  "RNonce (Seal c off pt) = RNonce c \<and> RAEAD (Seal c off pt) = RAEAD c \<and>
   WAEAD (Seal c off pt) = WAEAD c \<and> WNonce (Seal c off pt) = increment (WNonce c) \<and>
   rw (Seal c off pt) = rw c \<and> cache_off (Seal c off pt) = cache_off c \<and>
   cache_len (Seal c off pt) = cache_len c"
  by (simp add: Seal_def)

lemma read_frame_effect:
  assumes "read_frame c m out = Return (c', o', err)"
  shows "WNonce c' = WNonce c \<and> WAEAD c' = WAEAD c \<and> RAEAD c' = RAEAD c \<and>
         outgoing (rw c') = outgoing (rw c) \<and> wcredit (rw c') = wcredit (rw c) \<and>
         RNonce c' \<in> {RNonce c, increment (RNonce c), increment (increment (RNonce c))}"
proof -
  let ?ov = "Overhead (RAEAD c)"
  obtain c1 e1 where f1: "fill c (2 + ?ov) = (c1, e1)" by (cases "fill c (2 + ?ov)")
  note k1 = fill_effect [OF f1]
  obtain c2 r2 where o1: "Open c1 0 (take (2 + Overhead (RAEAD c1)) (buffer c1)) = (c2, r2)"
    by (cases "Open c1 0 (take (2 + Overhead (RAEAD c1)) (buffer c1))")
  note k2 = Open_effect [OF o1]
  let ?size = "payload_size (buffer c2 ! 0) (buffer c2 ! 1)"
  obtain c3 e3 where f2: "fill c2 (?size + Overhead (RAEAD c2)) = (c3, e3)"
    by (cases "fill c2 (?size + Overhead (RAEAD c2))")
  note k3 = fill_effect [OF f2]
  obtain c4 r4 where o2: "Open c3 0 (take (?size + Overhead (RAEAD c3)) (buffer c3)) = (c4, r4)"
    by (cases "Open c3 0 (take (?size + Overhead (RAEAD c3)) (buffer c3))")
  note k4 = Open_effect [OF o2]
  have "c' = c1 \<or> c' = c2 \<or> c' = c3 \<or> c' = c4 \<or>
      c' = c4\<lparr>cache_off := min (m - length out) ?size,
              cache_len := ?size - min (m - length out) ?size\<rparr>"
  proof (cases "length (buffer c) < 2 + ?ov")
    case True
    then have p1: "(length (buffer c) < 2 + ?ov) = True" by simp
    from assms show ?thesis unfolding read_frame_def p1 if_True by simp
  next
    case False
    then have p1: "(length (buffer c) < 2 + ?ov) = False" by simp
    note u1 = read_frame_def p1 if_False f1 prod.case option.case
    show ?thesis
    proof (cases e1)
      case (Some e)
      from assms show ?thesis unfolding u1 Some by simp
    next
      case None
      note u2 = u1 None o1
      show ?thesis
      proof (cases r2)
        case None
        from assms show ?thesis unfolding u2 None by simp
      next
        case (Some pt)
        show ?thesis
        proof (cases "length (buffer c2) < ?size + Overhead (RAEAD c2)")
          case True
          then have p2: "(length (buffer c2) < ?size + Overhead (RAEAD c2)) = True" by simp
          from assms show ?thesis unfolding u2 Some Let_def p2 if_True by simp
        next
          case False
          then have p2: "(length (buffer c2) < ?size + Overhead (RAEAD c2)) = False" by simp
          note u3 = u2 Some Let_def p2 if_False f2
          show ?thesis
          proof (cases e3)
            case (Some e)
            from assms show ?thesis unfolding u3 Some by simp
          next
            case None
            from assms show ?thesis unfolding u3 None o2
              by (cases r4) (simp_all split: if_splits)
          qed
        qed
      qed
    qed
  qed
  then show ?thesis using k1 k2 k3 k4 by auto
qed

lemma Read_effect:
  assumes "Read c m = Return (c', out, err)"
  shows "WNonce c' = WNonce c \<and> WAEAD c' = WAEAD c \<and> RAEAD c' = RAEAD c \<and>
         outgoing (rw c') = outgoing (rw c) \<and> wcredit (rw c') = wcredit (rw c) \<and>
         RNonce c' \<in> {RNonce c, increment (RNonce c), increment (increment (RNonce c))}"
proof (cases "0 < cache_len c \<and> min m (cache_len c) = m")
  case True
  with assms show ?thesis by (auto simp: Read_def Let_def)
next
  case False
  let ?n = "min m (cache_len c)"
  let ?c1 = "c\<lparr>cache_off := cache_off c + ?n, cache_len := cache_len c - ?n\<rparr>"
  from False assms have "read_frame c m [] = Return (c', out, err) \<or>
     read_frame ?c1 m (take ?n (cache c)) = Return (c', out, err)"
    by (auto simp: Read_def Let_def split: if_splits)
  then show ?thesis
    using read_frame_effect [of c m "[]" c' out err]
      read_frame_effect [of ?c1 m "take ?n (cache c)" c' out err]
    by auto
qed

lemma write_effect:
  assumes "write c p = Return (c', n, err)"
  shows "RNonce c' = RNonce c \<and> RAEAD c' = RAEAD c \<and> WAEAD c' = WAEAD c \<and>
         cache_off c' = cache_off c \<and> cache_len c' = cache_len c \<and>
         incoming (rw c') = incoming (rw c) \<and>
         WNonce c' \<in> {WNonce c, increment (increment (WNonce c))}"
  using assms Seal_effect
  by (auto simp: write_def Let_def conn_Write_def split: if_splits)

lemma Write_loop_effect:
  "Write_loop c p i n = Return (c', n', err) \<Longrightarrow>
   RNonce c' = RNonce c \<and> RAEAD c' = RAEAD c \<and> WAEAD c' = WAEAD c \<and>
   cache_off c' = cache_off c \<and> cache_len c' = cache_len c \<and>
   incoming (rw c') = incoming (rw c) \<and>
   (\<exists>j. WNonce c' = (increment ^^ j) (WNonce c))"
proof (induction "length p - i * MaxPayload" arbitrary: c i n rule: less_induct)
  case less
  show ?case
  proof (cases "i * MaxPayload < length p")
    case False
    with less.prems have "c' = c" by (simp add: Write_loop_done)
    then show ?thesis by (auto intro: exI [of _ 0])
  next
    case True
    let ?x = "take MaxPayload (drop (i * MaxPayload) p)"
    note st = Write_loop_step [OF True, of c n]
    show ?thesis
    proof (cases "write c ?x")
      case Panic
      with less.prems st show ?thesis by simp
    next
      case (Return res)
      obtain c1 nn e where res: "res = (c1, nn, e)" by (cases res)
      note w = write_effect [OF Return [unfolded res]]
      from w have "\<exists>j. WNonce c1 = (increment ^^ j) (WNonce c)"
        by (auto intro: exI [of _ 0] exI [of _ 2] simp: numeral_2_eq_2)
      then obtain j1 where j1: "WNonce c1 = (increment ^^ j1) (WNonce c)" by blast
      show ?thesis
      proof (cases e)
        case (Some e')
        with less.prems st Return res have "c' = c1" by simp
        with w j1 show ?thesis by blast
      next
        case None
        with less.prems st Return res
        have r: "Write_loop c1 p (i + 1) (n + nn) = Return (c', n', err)" by simp
        have dec: "length p - (i + 1) * MaxPayload < length p - i * MaxPayload"
          using True by (simp add: MaxPayload_def)
        from less.hyps [OF dec r] obtain j2 where
          a: "RNonce c' = RNonce c1 \<and> RAEAD c' = RAEAD c1 \<and> WAEAD c' = WAEAD c1 \<and>
              cache_off c' = cache_off c1 \<and> cache_len c' = cache_len c1 \<and>
              incoming (rw c') = incoming (rw c1)"
          and j2: "WNonce c' = (increment ^^ j2) (WNonce c1)"
          by blast
        have "WNonce c' = (increment ^^ (j2 + j1)) (WNonce c)"
          unfolding j2 j1 by (simp add: funpow_add)
        with a w show ?thesis by auto
      qed
    qed
  qed
qed

lemma le_val_zeros [simp]: "le_val (replicate n 0) = 0"
  by (induction n) simp_all

lemma nonce_after_opens:
  "RNonce (opens c cts) = (increment ^^ length cts) (RNonce c) \<and> WNonce (opens c cts) = WNonce c"
proof (induction cts arbitrary: c)
  case Nil show ?case by simp
next
  case (Cons x xs)
  obtain c2 r where o: "Open c 0 x = (c2, r)" by (cases "Open c 0 x")
  from Open_effect [OF o] Cons [of c2] show ?case by (simp add: o funpow_swap1)
qed

lemma nonce_after_seals:
  "WNonce (seals c pts) = (increment ^^ length pts) (WNonce c) \<and> RNonce (seals c pts) = RNonce c"
proof (induction pts arbitrary: c)
  case Nil show ?case by simp
next
  case (Cons x xs)
  from Seal_effect [of c 0 x] Cons [of "Seal c 0 x"] show ?case by (simp add: funpow_swap1)
qed

lemma length_funpow_increment [simp]: "length ((increment ^^ k) b) = length b"
  by (induction k) simp_all

lemma le_val_funpow_increment:
  "le_val ((increment ^^ k) b) = (le_val b + k) mod 2 ^ (8 * length b)"
proof (induction k)
  case 0
  have "le_val b < 256 ^ length b" by (rule le_val_bound)
  also have "(256::nat) ^ length b = 2 ^ (8 * length b)" by (simp add: power_mult)
  finally show ?case by simp
next
  case (Suc k)
  have p: "(256::nat) ^ length b = 2 ^ (8 * length b)" by (simp add: power_mult)
  have "le_val ((increment ^^ Suc k) b) = (le_val ((increment ^^ k) b) + 1) mod 2 ^ (8 * length b)"
    by (simp add: le_val_increment p)
  also have "\<dots> = (le_val b + k + 1) mod 2 ^ (8 * length b)"
    unfolding Suc by (simp add: mod_simps)
  finally show ?case by simp
qed

lemma write_nonce:
  assumes "write c p = Return (c', n, err)" and "length p \<le> MaxPayload"
  shows "WNonce c' = increment (increment (WNonce c)) \<and>
         length (outgoing (rw c')) = length (outgoing (rw c)) + (if err = None then 1 else 0)"
  using assms
  by (auto simp: write_def Let_def conn_Write_def Seal_def split: if_splits)

lemma funpow_plus2: "(f ^^ (a + 2)) x = (f ^^ a) (f (f x))"
proof -
  have "(f ^^ (a + 2)) x = (f ^^ a) ((f ^^ 2) x)" by (simp only: funpow_add comp_apply)
  also have "(f ^^ 2) x = f (f x)" by (simp add: numeral_2_eq_2)
  finally show ?thesis .
qed

lemma Write_loop_nonce:
  "Write_loop c p i n = Return (c', n', err) \<Longrightarrow>
   length (outgoing (rw c)) \<le> length (outgoing (rw c')) \<and>
   WNonce c' = (increment ^^ (2 * (length (outgoing (rw c')) - length (outgoing (rw c))
                                    + (if err = None then 0 else 1)))) (WNonce c)"
proof (induction "length p - i * MaxPayload" arbitrary: c i n rule: less_induct)
  case less
  show ?case
  proof (cases "i * MaxPayload < length p")
    case False
    with less.prems have "c' = c \<and> err = None" by (simp add: Write_loop_done)
    then show ?thesis by simp
  next
    case True
    let ?x = "take MaxPayload (drop (i * MaxPayload) p)"
    note st = Write_loop_step [OF True, of c n]
    show ?thesis
    proof (cases "write c ?x")
      case Panic
      with less.prems st show ?thesis by simp
    next
      case (Return res)
      obtain c1 nn e where res: "res = (c1, nn, e)" by (cases res)
      from write_nonce [OF Return [unfolded res] length_take_le]
      have w1: "WNonce c1 = increment (increment (WNonce c))"
        and w2: "length (outgoing (rw c1)) = length (outgoing (rw c)) + (if e = None then 1 else 0)"
        by simp_all
      show ?thesis
      proof (cases e)
        case (Some e')
        with less.prems st Return res have "c' = c1 \<and> err = Some e'" by simp
        with w1 w2 Some show ?thesis by (simp add: numeral_2_eq_2)
      next
        case None
        with less.prems st Return res
        have r: "Write_loop c1 p (i + 1) (n + nn) = Return (c', n', err)" by simp
        have dec: "length p - (i + 1) * MaxPayload < length p - i * MaxPayload"
          using True by (simp add: MaxPayload_def)
        let ?d = "if err = None then 0 else (1::nat)"
        from less.hyps [OF dec r]
        have le: "length (outgoing (rw c1)) \<le> length (outgoing (rw c'))"
          and ih: "WNonce c' = (increment ^^ (2 * (length (outgoing (rw c')) - length (outgoing (rw c1)) + ?d)))
                      (WNonce c1)"
          by blast+
        from w2 None have o1: "length (outgoing (rw c1)) = Suc (length (outgoing (rw c)))" by simp
        have k: "2 * (length (outgoing (rw c')) - length (outgoing (rw c)) + ?d)
               = 2 * (length (outgoing (rw c')) - length (outgoing (rw c1)) + ?d) + 2"
          using le o1 by simp
        have "WNonce c' = (increment ^^ (2 * (length (outgoing (rw c')) - length (outgoing (rw c)) + ?d)))
                      (WNonce c)"
          unfolding k ih w1 by (rule funpow_plus2 [symmetric])
        moreover have "length (outgoing (rw c)) \<le> length (outgoing (rw c'))" using le o1 by simp
        ultimately show ?thesis by simp
      qed
    qed
  qed
qed

lemma Write_short:
  assumes "p \<noteq> []" and "length p \<le> MaxPayload"
  shows "Write c p =
     (case write c p of
        Panic \<Rightarrow> Panic
      | Return (c', nn, Some e) \<Rightarrow> Return (c', nn, Some e)
      | Return (c', nn, None) \<Rightarrow> Return (c', nn, None))"
proof -
  have a: "0 * MaxPayload < length p" using assms(1) by simp
  have b: "\<not> Suc 0 * MaxPayload < length p" using assms(2) by simp
  have t: "take MaxPayload p = p" using assms(2) by simp
  have st: "Write_loop c p 0 0 =
     (case write c p of
        Panic \<Rightarrow> Panic
      | Return (c', nn, Some e) \<Rightarrow> Return (c', 0 + nn, Some e)
      | Return (c', nn, None) \<Rightarrow> Write_loop c' p (0 + 1) (0 + nn))"
    using Write_loop_step [OF a, of c 0] by (simp only: t mult_0 drop_0)
  show ?thesis
    unfolding Write_def st
    by (auto simp: Write_loop_done [OF b] split: outcome.splits option.splits)
qed

lemma inc1: "increment (1 # replicate 11 (0::byte)) = 2 # replicate 11 0"
  by simp

lemma le_val_two: "le_val (2 # replicate 11 (0::byte)) = 2"
  by simp

subsection \<open>The handshake\<close>

lemma Shadow_fresh:
  "Shadow hk rnd p s = Return (Inr c) \<Longrightarrow>
   RNonce c = replicate (NonceSize p) 0 \<and> WNonce c = replicate (NonceSize p) 0 \<and>
   cache_len c = 0 \<and> scratch_ok c"
  by (auto simp: Shadow_def scratch_ok_def split: prod.splits option.splits outcome.splits sum.splits)

lemma Shadow_kdf_panic:
  "SaltSize p \<le> length (incoming s) \<Longrightarrow>
   length (hk (key p) (take (SaltSize p) (incoming s)) ss_subkey) < KeySize p \<Longrightarrow>
   Shadow hk rnd p s = Panic"
  by (simp add: Shadow_def ReadFull_def hkdfSHA1_def)

lemma toy_Shadow:
  "Shadow toy_hk [5, 6] toy_suite (toy_conn [7, 8]) =
     Return (Inr ((toy_tunnel [])\<lparr>rw := \<lparr>incoming = [], outgoing = [[5, 6]], wcredit = 99\<rparr>\<rparr>))"
  by (simp add: Shadow_def ReadFull_def hkdfSHA1_def toy_suite_def toy_conn_def toy_hk_def
      conn_Write_def toy_tunnel_def toy_def)

subsection \<open>The claims\<close>

text \<open>
  C1. Round trip. A writer whose AEAD keeps the interface's promise, whose scratch array
  holds a full chunk and whose stream accepts the writes, writes \<open>p\<close> in full. A reader
  with the same AEAD and the same nonce, an empty cache and a scratch array of the size
  \<open>Shadow\<close> gives it, whose stream holds the bytes the writer produced, receives in any
  sequence of \<open>Read\<close> calls with buffers of any sizes (empty ones too) a prefix of \<open>p\<close>,
  in order; and it has received exactly \<open>p\<close> once it has made as many calls with
  non-empty buffers as \<open>p\<close> has bytes. This holds for every length of \<open>p\<close>, so also
  for the lengths up to \<open>10 * 0x3FFF\<close>.
\<close>

theorem round_trip:
  assumes "aead_ok (WAEAD w)"
    and "2 + Overhead (WAEAD w) + MaxPayload + Overhead (WAEAD w) \<le> length (buffer w)"
    and "(length p + MaxPayload - 1) div MaxPayload \<le> wcredit (rw w)"
    and "RAEAD r = WAEAD w" and "RNonce r = WNonce w"
    and "scratch_ok r" and "cache_len r = 0"
    and "incoming (rw r) = wire_of w p"
  shows "(\<exists>w'. Write w p = Return (w', length p, None))
       \<and> (\<exists>k. reads r ms = take k p)
       \<and> (length p \<le> length (filter (\<lambda>m. 0 < m) ms) \<longrightarrow> reads r ms = p)"
proof -
  have sl: "\<forall>nonce pt. length (aeadSeal (WAEAD w) nonce pt) = length pt + Overhead (WAEAD w)"
    using assms(1) by (simp add: aead_ok_def)
  have wr: "\<exists>w'. Write w p = Return (w', length p, None)"
    using Write_ok [OF sl assms(2,3)] by blast
  have inc: "incoming (rw r) = concat (frames (WAEAD w) (RNonce r) (pieces p))"
    using wire_of_frames [OF sl assms(2,3)] assms(5,8) by simp
  have e: "cache r = []" using assms(7) by (simp add: cache_def)
  have rd: "reading (WAEAD w) r (pieces p)"
    unfolding reading_def using assms(1,4,6,7) inc e pieces_bounds by auto
  have a: "\<exists>k. reads r ms = take k p"
    using reads_prefix [OF rd, of ms] by (simp add: e concat_pieces)
  have b: "length p \<le> length (filter (\<lambda>m. 0 < m) ms) \<longrightarrow> reads r ms = p"
    using reads_all [OF rd, of ms] by (simp add: e concat_pieces)
  from wr a b show ?thesis by blast
qed

theorem round_trip_witness:
  "aead_ok (WAEAD (toy_tunnel [])) \<and>
   2 + Overhead (WAEAD (toy_tunnel [])) + MaxPayload + Overhead (WAEAD (toy_tunnel []))
     \<le> length (buffer (toy_tunnel [])) \<and>
   (length [1, 2, 3 :: byte] + MaxPayload - 1) div MaxPayload \<le> wcredit (rw (toy_tunnel [])) \<and>
   RAEAD (toy_tunnel (wire_of (toy_tunnel []) [1, 2, 3])) = WAEAD (toy_tunnel []) \<and>
   RNonce (toy_tunnel (wire_of (toy_tunnel []) [1, 2, 3])) = WNonce (toy_tunnel []) \<and>
   scratch_ok (toy_tunnel (wire_of (toy_tunnel []) [1, 2, 3])) \<and>
   cache_len (toy_tunnel (wire_of (toy_tunnel []) [1, 2, 3])) = 0 \<and>
   incoming (rw (toy_tunnel (wire_of (toy_tunnel []) [1, 2, 3]))) = wire_of (toy_tunnel []) [1, 2, 3] \<and>
   length [1, 2, 3 :: byte] \<le> length (filter (\<lambda>m. 0 < m) [2, 0, 5, 1 :: nat]) \<and>
   reads (toy_tunnel (wire_of (toy_tunnel []) [1, 2, 3])) [2, 0, 5, 1] = [1, 2, 3]"
proof -
  let ?w = "toy_tunnel []"
  let ?r = "toy_tunnel (wire_of (toy_tunnel []) [1, 2, 3])"
  have h1: "aead_ok (WAEAD ?w)" using toy_ok by (simp add: toy_tunnel_def)
  have h3: "(length [1, 2, 3 :: byte] + MaxPayload - 1) div MaxPayload \<le> wcredit (rw ?w)"
    by (simp add: MaxPayload_def toy_tunnel_def toy_conn_def)
  have h4: "RAEAD ?r = WAEAD ?w" and h5: "RNonce ?r = WNonce ?w"
    and h6: "scratch_ok ?r" and h7: "cache_len ?r = 0"
    and h8: "incoming (rw ?r) = wire_of ?w [1, 2, 3]"
    by (simp_all add: toy_tunnel_def toy_conn_def scratch_ok_def toy_def)
  have g: "length [1, 2, 3 :: byte] \<le> length (filter (\<lambda>m. 0 < m) [2, 0, 5, 1 :: nat])"
    by simp
  from round_trip [OF h1 toy_buffer_fits h3 h4 h5 h6 h7 h8, of "[2, 0, 5, 1]"] g
  have "reads ?r [2, 0, 5, 1] = [1, 2, 3]" by blast
  with h1 toy_buffer_fits [of "[]"] h3 h4 h5 h6 h7 h8 g show ?thesis by blast
qed

text \<open>
  C2 (as amended). Both nonce counters are zero in the tunnel \<open>Shadow\<close> returns. Every call
  of \<open>Open\<close> increments the read counter by one and every call of \<open>Seal\<close> the write
  counter by one, whether or not the AEAD operation succeeds, and neither touches the
  other counter. \<open>increment\<close> adds one to the little-endian value modulo
  \<open>2 ^ (8 * width)\<close> and keeps the width. Nothing else moves a counter: \<open>Read\<close> leaves the
  read counter as it is or incremented once or twice (its value grows by 0, 1 or 2) and
  never touches the write counter; \<open>Write\<close> never touches the read counter and increments
  the write counter exactly twice for every piece it has sealed, that is for every chunk
  the stream has accepted and for the piece whose stream write failed, so the value of the
  write counter grows by exactly twice that number; so no counter is ever reset. After \<open>k\<close> calls of \<open>Open\<close> (or \<open>Seal\<close>) the counter's value has
  grown by \<open>k\<close> modulo \<open>2 ^ (8 * width)\<close>, and from creation it is \<open>k\<close> modulo
  \<open>2 ^ (8 * NonceSize)\<close>.
\<close>

theorem nonce_lifecycle:
  "(Shadow hk rnd p s = Return (Inr c0) \<longrightarrow>
      RNonce c0 = replicate (NonceSize p) 0 \<and> WNonce c0 = replicate (NonceSize p) 0 \<and>
      le_val (RNonce c0) = 0 \<and> le_val (WNonce c0) = 0 \<and>
      le_val (RNonce (opens c0 cts)) = length cts mod 2 ^ (8 * NonceSize p) \<and>
      le_val (WNonce (seals c0 pts)) = length pts mod 2 ^ (8 * NonceSize p)) \<and>
   RNonce (fst (Open c off ct)) = increment (RNonce c) \<and>
   WNonce (fst (Open c off ct)) = WNonce c \<and>
   WNonce (Seal c off pt) = increment (WNonce c) \<and>
   RNonce (Seal c off pt) = RNonce c \<and>
   le_val (increment b) = (le_val b + 1) mod 2 ^ (8 * length b) \<and>
   length (increment b) = length b \<and>
   le_val (RNonce (opens c cts)) = (le_val (RNonce c) + length cts) mod 2 ^ (8 * length (RNonce c)) \<and>
   le_val (WNonce (seals c pts)) = (le_val (WNonce c) + length pts) mod 2 ^ (8 * length (WNonce c)) \<and>
   (case Read c m of
      Panic \<Rightarrow> True
    | Return (c', out, err) \<Rightarrow>
        WNonce c' = WNonce c \<and>
        RNonce c' \<in> {RNonce c, increment (RNonce c), increment (increment (RNonce c))} \<and>
        (\<exists>j. j \<le> 2 \<and> RNonce c' = (increment ^^ j) (RNonce c) \<and>
              le_val (RNonce c') = (le_val (RNonce c) + j) mod 2 ^ (8 * length (RNonce c)))) \<and>
   (case Write c d of
      Panic \<Rightarrow> True
    | Return (c', n, err) \<Rightarrow>
        RNonce c' = RNonce c \<and>
        length (outgoing (rw c)) \<le> length (outgoing (rw c')) \<and>
        WNonce c' =
          (increment ^^ (2 * (length (outgoing (rw c')) - length (outgoing (rw c))
                              + (if err = None then 0 else 1)))) (WNonce c) \<and>
        le_val (WNonce c') =
          (le_val (WNonce c) + 2 * (length (outgoing (rw c')) - length (outgoing (rw c))
                                    + (if err = None then 0 else 1)))
            mod 2 ^ (8 * length (WNonce c)))"
proof -
  have p: "(256::nat) ^ k = 2 ^ (8 * k)" for k by (simp add: power_mult)
  have o: "le_val (RNonce (opens t cts)) = (le_val (RNonce t) + length cts) mod 2 ^ (8 * length (RNonce t))"
    for t by (simp add: nonce_after_opens le_val_funpow_increment)
  have s: "le_val (WNonce (seals t pts)) = (le_val (WNonce t) + length pts) mod 2 ^ (8 * length (WNonce t))"
    for t by (simp add: nonce_after_seals le_val_funpow_increment)
  have 1: "Shadow hk rnd p s = Return (Inr c0) \<longrightarrow>
      RNonce c0 = replicate (NonceSize p) 0 \<and> WNonce c0 = replicate (NonceSize p) 0 \<and>
      le_val (RNonce c0) = 0 \<and> le_val (WNonce c0) = 0 \<and>
      le_val (RNonce (opens c0 cts)) = length cts mod 2 ^ (8 * NonceSize p) \<and>
      le_val (WNonce (seals c0 pts)) = length pts mod 2 ^ (8 * NonceSize p)"
  proof
    assume "Shadow hk rnd p s = Return (Inr c0)"
    from Shadow_fresh [OF this]
    have z: "RNonce c0 = replicate (NonceSize p) 0" "WNonce c0 = replicate (NonceSize p) 0"
      by simp_all
    show "RNonce c0 = replicate (NonceSize p) 0 \<and> WNonce c0 = replicate (NonceSize p) 0 \<and>
      le_val (RNonce c0) = 0 \<and> le_val (WNonce c0) = 0 \<and>
      le_val (RNonce (opens c0 cts)) = length cts mod 2 ^ (8 * NonceSize p) \<and>
      le_val (WNonce (seals c0 pts)) = length pts mod 2 ^ (8 * NonceSize p)"
      using o [of c0] s [of c0] by (simp add: z)
  qed
  have 2: "RNonce (fst (Open c off ct)) = increment (RNonce c) \<and>
           WNonce (fst (Open c off ct)) = WNonce c"
    using Open_effect [of c off ct "fst (Open c off ct)" "snd (Open c off ct)"] by simp
  have 3: "WNonce (Seal c off pt) = increment (WNonce c) \<and> RNonce (Seal c off pt) = RNonce c"
    using Seal_effect [of c off pt] by simp
  have 4: "le_val (increment b) = (le_val b + 1) mod 2 ^ (8 * length b)"
    by (simp add: le_val_increment p)
  have 5: "case Read c m of
      Panic \<Rightarrow> True
    | Return (c', out, err) \<Rightarrow>
        WNonce c' = WNonce c \<and>
        RNonce c' \<in> {RNonce c, increment (RNonce c), increment (increment (RNonce c))} \<and>
        (\<exists>j. j \<le> 2 \<and> RNonce c' = (increment ^^ j) (RNonce c) \<and>
              le_val (RNonce c') = (le_val (RNonce c) + j) mod 2 ^ (8 * length (RNonce c)))"
  proof (cases "Read c m")
    case Panic
    then show ?thesis by simp
  next
    case (Return res)
    obtain c' out err where res: "res = (c', out, err)" by (cases res)
    from Return res Read_effect [of c m c' out err]
    have w: "WNonce c' = WNonce c"
      and r: "RNonce c' \<in> {RNonce c, increment (RNonce c), increment (increment (RNonce c))}"
      by simp_all
    have f0: "(increment ^^ 0) (RNonce c) = RNonce c"
      and f1: "(increment ^^ 1) (RNonce c) = increment (RNonce c)"
      and f2: "(increment ^^ 2) (RNonce c) = increment (increment (RNonce c))"
      by (simp_all add: numeral_2_eq_2)
    from r have "\<exists>j. j \<le> 2 \<and> RNonce c' = (increment ^^ j) (RNonce c)"
    proof (elim insertE)
      assume "RNonce c' = RNonce c"
      then have "0 \<le> (2::nat) \<and> RNonce c' = (increment ^^ 0) (RNonce c)" by (simp only: f0) simp
      then show ?thesis by blast
    next
      assume "RNonce c' = increment (RNonce c)"
      then have "1 \<le> (2::nat) \<and> RNonce c' = (increment ^^ 1) (RNonce c)" by (simp only: f1) simp
      then show ?thesis by blast
    next
      assume "RNonce c' = increment (increment (RNonce c))"
      then have "2 \<le> (2::nat) \<and> RNonce c' = (increment ^^ 2) (RNonce c)" by (simp only: f2) simp
      then show ?thesis by blast
    next
      assume "RNonce c' \<in> {}"
      then show ?thesis by simp
    qed
    then obtain j where j: "j \<le> 2" "RNonce c' = (increment ^^ j) (RNonce c)" by blast
    have "le_val (RNonce c') = (le_val (RNonce c) + j) mod 2 ^ (8 * length (RNonce c))"
      by (subst j(2)) (rule le_val_funpow_increment)
    with j have "\<exists>j. j \<le> 2 \<and> RNonce c' = (increment ^^ j) (RNonce c) \<and>
              le_val (RNonce c') = (le_val (RNonce c) + j) mod 2 ^ (8 * length (RNonce c))"
      by blast
    with w r show ?thesis unfolding Return res by simp
  qed
  have 6: "case Write c d of
      Panic \<Rightarrow> True
    | Return (c', n, err) \<Rightarrow>
        RNonce c' = RNonce c \<and>
        length (outgoing (rw c)) \<le> length (outgoing (rw c')) \<and>
        WNonce c' =
          (increment ^^ (2 * (length (outgoing (rw c')) - length (outgoing (rw c))
                              + (if err = None then 0 else 1)))) (WNonce c) \<and>
        le_val (WNonce c') =
          (le_val (WNonce c) + 2 * (length (outgoing (rw c')) - length (outgoing (rw c))
                                    + (if err = None then 0 else 1)))
            mod 2 ^ (8 * length (WNonce c))"
  proof (cases "Write c d")
    case Panic
    then show ?thesis by simp
  next
    case (Return res)
    obtain c' n err where res: "res = (c', n, err)" by (cases res)
    let ?j = "2 * (length (outgoing (rw c')) - length (outgoing (rw c))
                   + (if err = None then 0 else 1))"
    from Return res have wl: "Write_loop c d 0 0 = Return (c', n, err)" by (simp add: Write_def)
    from Write_loop_effect [OF wl] have a: "RNonce c' = RNonce c" by simp
    from Write_loop_nonce [OF wl]
    have b: "length (outgoing (rw c)) \<le> length (outgoing (rw c'))"
      and e: "WNonce c' = (increment ^^ ?j) (WNonce c)"
      by blast+
    have l: "le_val (WNonce c') = (le_val (WNonce c) + ?j) mod 2 ^ (8 * length (WNonce c))"
      by (subst e) (rule le_val_funpow_increment)
    from a b e l show ?thesis unfolding Return res by (simp only: outcome.case prod.case simp_thms)
  qed
  from 1 2 3 4 5 6 o [of c] s [of c] show ?thesis by simp
qed

theorem nonce_lifecycle_witness:
  "Shadow toy_hk [5, 6] toy_suite (toy_conn [7, 8]) =
     Return (Inr ((toy_tunnel [])\<lparr>rw := \<lparr>incoming = [], outgoing = [[5, 6]], wcredit = 99\<rparr>\<rparr>)) \<and>
   RNonce ((toy_tunnel [])\<lparr>rw := \<lparr>incoming = [], outgoing = [[5, 6]], wcredit = 99\<rparr>\<rparr>)
     = replicate 12 0 \<and>
   le_val (RNonce (opens ((toy_tunnel [])\<lparr>rw := \<lparr>incoming = [], outgoing = [[5, 6]], wcredit = 99\<rparr>\<rparr>)
                         [[0], [1], [2]])) = 3 \<and>
   (case Write (toy_tunnel []) [9] of
      Panic \<Rightarrow> False
    | Return (c', n, err) \<Rightarrow>
        n = 1 \<and> err = None \<and> length (outgoing (rw c')) = 1 \<and>
        WNonce c' = 2 # replicate 11 0 \<and> le_val (WNonce c') = 2)"
proof -
  let ?c = "(toy_tunnel [])\<lparr>rw := \<lparr>incoming = [], outgoing = [[5, 6]], wcredit = 99\<rparr>\<rparr>"
  from nonce_lifecycle [of toy_hk "[5, 6]" toy_suite "toy_conn [7, 8]" ?c "[[0], [1], [2]]"] toy_Shadow
  have "RNonce ?c = replicate (NonceSize toy_suite) 0 \<and>
        le_val (RNonce (opens ?c [[0], [1], [2]])) = length [[0::byte], [1], [2]] mod 2 ^ (8 * NonceSize toy_suite)"
    by blast
  then have a: "RNonce ?c = replicate 12 0 \<and> le_val (RNonce (opens ?c [[0], [1], [2]])) = 3"
    by (simp add: toy_suite_def)
  have s: "[9::byte] \<noteq> []" "length [9::byte] \<le> MaxPayload" by (simp_all add: MaxPayload_def)
  have b: "case Write (toy_tunnel []) [9] of
      Panic \<Rightarrow> False
    | Return (c', n, err) \<Rightarrow>
        n = 1 \<and> err = None \<and> length (outgoing (rw c')) = 1 \<and>
        WNonce c' = 2 # replicate 11 0 \<and> le_val (WNonce c') = 2"
    by (simp add: Write_short [OF s] write_def Seal_def conn_Write_def Let_def toy_tunnel_def
        toy_conn_def toy_def MaxPayload_def inc0 inc1 le_val_two)
  from a b toy_Shadow show ?thesis by simp
qed

text \<open>
  C2 as stated fails: an \<open>Open\<close> that fails still increments the read counter.
\<close>

theorem failed_open_counterexample:
  "snd (Open (toy_tunnel []) 0 [0]) = None \<and>
   RNonce (toy_tunnel []) = replicate 12 0 \<and>
   RNonce (fst (Open (toy_tunnel []) 0 [0])) = 1 # replicate 11 0"
  by (simp add: Open_def toy_tunnel_def toy_def toy_tag0 inc0)

text \<open>
  C3 (as amended). On a tunnel whose write AEAD adds its overhead to every message, whose
  scratch array holds a full chunk and whose stream accepts the writes, a call of \<open>Write\<close>
  with \<open>L\<close> bytes emits exactly \<open>ceil (L / 0x3FFF)\<close> wire chunks. For \<open>L = 0\<close> that is no
  chunk at all: the loop body never runs, so no empty-payload chunk is written.
\<close>

theorem Write_chunk_count:
  assumes "\<forall>nonce pt. length (aeadSeal (WAEAD c) nonce pt) = length pt + Overhead (WAEAD c)"
    and "2 + Overhead (WAEAD c) + MaxPayload + Overhead (WAEAD c) \<le> length (buffer c)"
    and "(length p + MaxPayload - 1) div MaxPayload \<le> wcredit (rw c)"
  shows "chunks_emitted c p = (length p + MaxPayload - 1) div MaxPayload"
proof -
  from Write_loop_run [OF assms(1,2), of p 0 0] obtain c' r e where
    w: "Write c p = Return (c', r, e)"
    and o: "outgoing (rw c') = outgoing (rw c) @
             frames (WAEAD c) (WNonce c) (take (wcredit (rw c)) (pieces p))"
    by (auto simp: Write_def)
  have "length (frames A nonce xs) = length xs" for A nonce xs
    by (induction xs arbitrary: nonce) simp_all
  then show ?thesis
    using assms(3) by (simp add: chunks_emitted_def w o length_pieces)
qed

theorem Write_chunk_count_witness:
  "(\<forall>nonce pt. length (aeadSeal (WAEAD (toy_tunnel [])) nonce pt)
       = length pt + Overhead (WAEAD (toy_tunnel []))) \<and>
   2 + Overhead (WAEAD (toy_tunnel [])) + MaxPayload + Overhead (WAEAD (toy_tunnel []))
     \<le> length (buffer (toy_tunnel [])) \<and>
   (length (replicate 16384 (0::byte)) + MaxPayload - 1) div MaxPayload
     \<le> wcredit (rw (toy_tunnel [])) \<and>
   chunks_emitted (toy_tunnel []) (replicate 16384 0) = 2"
proof -
  have h: "(length (replicate 16384 (0::byte)) + MaxPayload - 1) div MaxPayload
     \<le> wcredit (rw (toy_tunnel []))"
    by (simp add: MaxPayload_def toy_tunnel_def toy_conn_def)
  show ?thesis
    using Write_chunk_count [OF toy_seal_length toy_buffer_fits h] toy_seal_length [of "[]"]
      toy_buffer_fits [of "[]"] h
    by (simp add: MaxPayload_def)
qed

text \<open>
  C3 as stated fails for the empty input: \<open>Write\<close> emits no chunk, not one.
\<close>

theorem Write_empty_counterexample:
  "chunks_emitted (toy_tunnel []) [] = 0 \<and> chunks_emitted (toy_tunnel []) [] \<noteq> 1"
  by (simp add: chunks_emitted_def Write_def Write_loop_done)

text \<open>
  C4 (as amended). \<open>hkdfSHA1\<close> panics exactly when the derivation function yields fewer
  bytes than asked for; it has no error result. \<open>Shadow\<close> does not recover: once the salt
  is read, a derivation that falls short makes \<open>Shadow\<close> panic instead of returning an
  error.
\<close>

theorem hkdf_failure_panics:
  "((hkdfSHA1 hk secret salt info n = Panic) = (length (hk secret salt info) < n)) \<and>
   (SaltSize p \<le> length (incoming s) \<and>
    length (hk (key p) (take (SaltSize p) (incoming s)) ss_subkey) < KeySize p \<longrightarrow>
      Shadow hk rnd p s = Panic)"
  using Shadow_kdf_panic [of p s hk rnd]
  by (simp add: hkdfSHA1_def ReadFull_def)

theorem hkdf_failure_panics_witness:
  "SaltSize toy_suite \<le> length (incoming (toy_conn [7, 8])) \<and>
   length ((\<lambda>secret salt info. []) (key toy_suite)
             (take (SaltSize toy_suite) (incoming (toy_conn [7, 8]))) ss_subkey :: byte list)
     < KeySize toy_suite \<and>
   Shadow (\<lambda>secret salt info. []) [5, 6] toy_suite (toy_conn [7, 8]) = Panic"
proof -
  have h: "SaltSize toy_suite \<le> length (incoming (toy_conn [7, 8])) \<and>
   length ((\<lambda>secret salt info. []) (key toy_suite)
             (take (SaltSize toy_suite) (incoming (toy_conn [7, 8]))) ss_subkey :: byte list)
     < KeySize toy_suite"
    by (simp add: toy_suite_def toy_conn_def)
  with hkdf_failure_panics [of "\<lambda>secret salt info. []" _ _ _ _ toy_suite "toy_conn [7, 8]" "[5, 6]"]
  show ?thesis by blast
qed

text \<open>
  C4 as stated fails: with a derivation function that yields nothing, \<open>hkdfSHA1\<close> and
  \<open>Shadow\<close> panic; \<open>Shadow\<close> returns no error value.
\<close>

theorem hkdf_failure_counterexample:
  "hkdfSHA1 (\<lambda>secret salt info. []) [1, 2, 3] [7, 8] ss_subkey 4 = Panic \<and>
   Shadow (\<lambda>secret salt info. []) [5, 6] toy_suite (toy_conn [7, 8]) = Panic \<and>
   Shadow (\<lambda>secret salt info. []) [5, 6] toy_suite (toy_conn [7, 8]) \<noteq> Return (Inl EOF)"
  by (simp add: Shadow_def ReadFull_def hkdfSHA1_def toy_suite_def toy_conn_def)

text \<open>
  C5. A piece longer than \<open>MaxPayload\<close> bytes given to \<open>write\<close> is rejected with an error
  and a count of zero, and the tunnel is returned as it was: nothing is sealed, no nonce
  moves, nothing reaches the stream.
\<close>

theorem write_rejects_oversized:
  "MaxPayload < length p \<Longrightarrow> write c p = Return (c, 0, Some ErrTooLarge)"
  by (simp add: write_def)

theorem write_rejects_oversized_witness:
  "MaxPayload < length (replicate 16384 (0::byte)) \<and>
   write (toy_tunnel []) (replicate 16384 0) = Return (toy_tunnel [], 0, Some ErrTooLarge)"
  using write_rejects_oversized [of "replicate 16384 (0::byte)" "toy_tunnel []"]
  by (simp add: MaxPayload_def)

text \<open>
  C6. The payload length is the big-endian 16-bit value of the two length bytes, masked to
  its low 14 bits, so it is at most \<open>0x3FFF\<close> whatever the two bytes are. A run of \<open>Read\<close>
  on a chunk whose length field decrypts to \<open>0xC0 0x02\<close> (top two bits set) reads a payload
  of two bytes.
\<close>

theorem payload_size_masked:
  "payload_size r0 r1 = (unat r0 * 256 + unat r1) mod 2 ^ 14 \<and>
   payload_size r0 r1 \<le> 0x3FFF \<and>
   (case Read (toy_tunnel [0xC1, 0x03, 7, 6, 7, 8]) 5 of
      Return (c, out, err) \<Rightarrow> out = [5, 6] \<and> err = None \<and> incoming (rw c) = []
    | Panic \<Rightarrow> False)"
proof -
  have "payload_size r0 r1 \<le> 0x3FFF"
    using payload_size_le [of r0 r1] by (simp add: MaxPayload_def)
  moreover have "case Read (toy_tunnel [0xC1, 0x03, 7, 6, 7, 8]) 5 of
      Return (c, out, err) \<Rightarrow> out = [5, 6] \<and> err = None \<and> incoming (rw c) = []
    | Panic \<Rightarrow> False"
    by (simp add: Read_def read_frame_def fill_def ReadFull_def Open_def toy_def
        toy_tunnel_def toy_conn_def MaxPayload_def append_at_def toy_tag0 inc0 toy_tag1
        payload_size_def Let_def)
  ultimately show ?thesis by (simp add: payload_size_mod)
qed

text \<open>
  C7. When the cache is not empty at the start of \<open>Read\<close>, the bytes returned begin with
  the cached bytes, in their order, cut to the size asked for; whatever comes from the
  stream comes after them. When the cache holds at least the \<open>m\<close> bytes asked for, \<open>Read\<close>
  returns the first \<open>m\<close> cached bytes without error and only the cache slice has moved:
  the stream, the nonces and the scratch array are untouched.
\<close>

theorem Read_drains_cache_first:
  assumes "0 < cache_len c" and "scratch_ok c"
  shows "(m \<le> cache_len c \<longrightarrow>
            Read c m = Return (c\<lparr>cache_off := cache_off c + m, cache_len := cache_len c - m\<rparr>,
                               take m (cache c), None)
            \<and> rw (c\<lparr>cache_off := cache_off c + m, cache_len := cache_len c - m\<rparr>) = rw c)
       \<and> (\<exists>c' more err. Read c m = Return (c', take (min m (cache_len c)) (cache c) @ more, err))"
proof -
  let ?n = "min m (cache_len c)"
  let ?c1 = "c\<lparr>cache_off := cache_off c + ?n, cache_len := cache_len c - ?n\<rparr>"
  have a: "m \<le> cache_len c \<longrightarrow>
            Read c m = Return (c\<lparr>cache_off := cache_off c + m, cache_len := cache_len c - m\<rparr>,
                               take m (cache c), None)"
    using assms(1) by (simp add: Read_def Let_def min_def)
  have sc1: "scratch_ok ?c1" using assms(2) by (simp add: scratch_ok_def)
  have b: "\<exists>c' more err. Read c m = Return (c', take ?n (cache c) @ more, err)"
  proof (cases "?n = m")
    case True
    have "Read c m = Return (?c1, take ?n (cache c) @ [], None)"
      unfolding Read_def Let_def using assms(1) True by simp
    then show ?thesis by blast
  next
    case False
    have "Read c m = read_frame ?c1 m (take ?n (cache c))"
      unfolding Read_def Let_def using assms(1) False by (simp only: if_True if_False)
    with read_frame_returns [OF sc1, of m "take ?n (cache c)"] show ?thesis by simp
  qed
  from a b show ?thesis by simp
qed

theorem Read_drains_cache_first_witness:
  "0 < cache_len ((toy_tunnel [])\<lparr>buffer := 4 # 5 # replicate 16385 0, cache_len := 2\<rparr>) \<and>
   scratch_ok ((toy_tunnel [])\<lparr>buffer := 4 # 5 # replicate 16385 0, cache_len := 2\<rparr>) \<and>
   (1::nat) \<le> cache_len ((toy_tunnel [])\<lparr>buffer := 4 # 5 # replicate 16385 0, cache_len := 2\<rparr>) \<and>
   Read ((toy_tunnel [])\<lparr>buffer := 4 # 5 # replicate 16385 0, cache_len := 2\<rparr>) 1 =
     Return ((toy_tunnel [])\<lparr>buffer := 4 # 5 # replicate 16385 0, cache_off := 1, cache_len := 1\<rparr>,
             [4], None)"
proof -
  let ?c = "(toy_tunnel [])\<lparr>buffer := 4 # 5 # replicate 16385 0, cache_len := 2\<rparr>"
  have h1: "0 < cache_len ?c" by simp
  have h2: "scratch_ok ?c" by (simp add: scratch_ok_def toy_tunnel_def toy_def MaxPayload_def)
  from Read_drains_cache_first [OF h1 h2, of 1] h1 h2 show ?thesis
    by (simp add: cache_def toy_tunnel_def)
qed

text \<open>
  C8. A \<open>Write\<close> does not leave the leftover cache unchanged: the cache is a slice of the
  scratch array, and \<open>write\<close> seals into the same array. A reader takes one byte of the
  chunk carrying 1, 2, 3, which leaves 2, 3 in the cache; a \<open>Write\<close> of one byte then
  turns the cached bytes into 2, 7 (bytes of the sealed length field), and the next
  \<open>Read\<close> returns 2, 7 instead of 2, 3.
\<close>

theorem Write_overwrites_cache:
  "(case Read (toy_tunnel [1, 4, 7, 2, 3, 4, 8]) 1 of
      Panic \<Rightarrow> False
    | Return (c1, out1, e1) \<Rightarrow>
        out1 = [1] \<and> e1 = None \<and> cache c1 = [2, 3] \<and>
        (case Write c1 [9] of
           Panic \<Rightarrow> False
         | Return (c2, n, e2) \<Rightarrow>
             n = 1 \<and> e2 = None \<and> cache c2 = [2, 7] \<and>
             (case Read c2 2 of
                Panic \<Rightarrow> False
              | Return (c3, out3, e3) \<Rightarrow> out3 = [2, 7] \<and> e3 = None)))"
proof -
  have w: "Write c [9] =
     (case write c [9] of
        Panic \<Rightarrow> Panic
      | Return (c', nn, Some e) \<Rightarrow> Return (c', nn, Some e)
      | Return (c', nn, None) \<Rightarrow> Return (c', nn, None))" for c
  proof -
    have a: "0 * MaxPayload < length [9::byte]" by simp
    have b: "\<not> Suc 0 * MaxPayload < length [9::byte]" by (simp add: MaxPayload_def)
    have t: "take MaxPayload [9::byte] = [9]" by (simp add: MaxPayload_def)
    have st: "Write_loop c [9] 0 0 =
       (case write c [9] of
          Panic \<Rightarrow> Panic
        | Return (c', nn, Some e) \<Rightarrow> Return (c', 0 + nn, Some e)
        | Return (c', nn, None) \<Rightarrow> Write_loop c' [9] (0 + 1) (0 + nn))"
      using Write_loop_step [OF a, of c 0] by (simp only: t mult_0 drop_0)
    show ?thesis
      unfolding Write_def st
      by (auto simp: Write_loop_done [OF b] split: outcome.splits option.splits)
  qed
  show ?thesis
    by (simp add: w Read_def read_frame_def fill_def ReadFull_def Open_def toy_def
        toy_tunnel_def toy_conn_def MaxPayload_def append_at_def toy_tag0 inc0 toy_tag1
        payload_size_def Let_def cache_def write_def Seal_def length_field_def conn_Write_def)
qed

text \<open>
  C9. When the stream accepts \<open>k\<close> writes and then fails while \<open>Write\<close> still has pieces to
  send, \<open>Write\<close> returns the stream's error and the total length of the first \<open>k\<close> pieces
  (which is \<open>k * 0x3FFF\<close>); the stream holds exactly the chunks of those \<open>k\<close> pieces, and
  the write nonce has moved for \<open>k + 1\<close> pieces: the failed piece was sealed once and is
  not sent again, the pieces after it are not attempted.
\<close>

theorem Write_partial_count:
  assumes "\<forall>nonce pt. length (aeadSeal (WAEAD c) nonce pt) = length pt + Overhead (WAEAD c)"
    and "2 + Overhead (WAEAD c) + MaxPayload + Overhead (WAEAD c) \<le> length (buffer c)"
    and "wcredit (rw c) < length (pieces p)"
  shows "\<exists>c'. Write c p =
            Return (c', length (concat (take (wcredit (rw c)) (pieces p))), Some ErrWrite)
        \<and> length (concat (take (wcredit (rw c)) (pieces p))) = wcredit (rw c) * MaxPayload
        \<and> outgoing (rw c') = outgoing (rw c) @
             frames (WAEAD c) (WNonce c) (take (wcredit (rw c)) (pieces p))
        \<and> WNonce c' = ((increment \<circ> increment) ^^ Suc (wcredit (rw c))) (WNonce c)"
proof -
  let ?k = "wcredit (rw c)"
  have "Suc ?k \<le> (length p + MaxPayload - 1) div MaxPayload"
    using assms(3) by (simp add: length_pieces)
  then have "Suc ?k * MaxPayload \<le> length p + MaxPayload - 1"
    by (simp add: less_eq_div_iff_mult_less_eq MaxPayload_def)
  then have "?k * MaxPayload \<le> length p" by (simp add: MaxPayload_def)
  then have len: "length (concat (take ?k (pieces p))) = ?k * MaxPayload"
    by (simp add: concat_take_pieces)
  have m: "min (Suc ?k) (length (pieces p)) = Suc ?k" using assms(3) by simp
  from Write_loop_run [OF assms(1,2), of p 0 0] show ?thesis
    using assms(3) len by (simp add: Write_def m del: funpow.simps)
qed

theorem Write_partial_count_witness:
  "(\<forall>nonce pt. length (aeadSeal (WAEAD ((toy_tunnel [])\<lparr>rw := (toy_conn [])\<lparr>wcredit := 1\<rparr>\<rparr>)) nonce pt)
       = length pt + Overhead (WAEAD ((toy_tunnel [])\<lparr>rw := (toy_conn [])\<lparr>wcredit := 1\<rparr>\<rparr>))) \<and>
   2 + Overhead (WAEAD ((toy_tunnel [])\<lparr>rw := (toy_conn [])\<lparr>wcredit := 1\<rparr>\<rparr>)) + MaxPayload
     + Overhead (WAEAD ((toy_tunnel [])\<lparr>rw := (toy_conn [])\<lparr>wcredit := 1\<rparr>\<rparr>))
     \<le> length (buffer ((toy_tunnel [])\<lparr>rw := (toy_conn [])\<lparr>wcredit := 1\<rparr>\<rparr>)) \<and>
   wcredit (rw ((toy_tunnel [])\<lparr>rw := (toy_conn [])\<lparr>wcredit := 1\<rparr>\<rparr>))
     < length (pieces (replicate 16384 (0::byte))) \<and>
   (\<exists>c'. Write ((toy_tunnel [])\<lparr>rw := (toy_conn [])\<lparr>wcredit := 1\<rparr>\<rparr>) (replicate 16384 0)
            = Return (c', 16383, Some ErrWrite))"
proof -
  let ?c = "(toy_tunnel [])\<lparr>rw := (toy_conn [])\<lparr>wcredit := 1\<rparr>\<rparr>"
  have h1: "\<forall>nonce pt. length (aeadSeal (WAEAD ?c) nonce pt) = length pt + Overhead (WAEAD ?c)"
    by (simp add: toy_tunnel_def toy_def)
  have h2: "2 + Overhead (WAEAD ?c) + MaxPayload + Overhead (WAEAD ?c) \<le> length (buffer ?c)"
    by (simp add: toy_tunnel_def toy_def)
  have h3: "wcredit (rw ?c) < length (pieces (replicate 16384 (0::byte)))"
    by (simp add: length_pieces MaxPayload_def)
  from Write_partial_count [OF h1 h2 h3] obtain c' where
    "Write ?c (replicate 16384 0) =
       Return (c', length (concat (take (wcredit (rw ?c)) (pieces (replicate 16384 (0::byte))))), Some ErrWrite)"
    and "length (concat (take (wcredit (rw ?c)) (pieces (replicate 16384 (0::byte))))) = wcredit (rw ?c) * MaxPayload"
    by blast
  then have "Write ?c (replicate 16384 0) = Return (c', 16383, Some ErrWrite)"
    by (simp add: MaxPayload_def)
  with h1 h2 h3 show ?thesis by blast
qed

text \<open>
  C10. A \<open>Read\<close> with an empty buffer: with a non-empty cache it returns no bytes and no
  error and leaves the tunnel as it was; with an empty cache and a complete chunk of
  payload \<open>x\<close> on the stream it reads the chunk, keeps all of \<open>x\<close> in the cache, has
  incremented the read nonce twice, so that its little-endian value has grown by 2 modulo
  \<open>2 ^ (8 * width)\<close>, and returns no bytes and no error.
\<close>

theorem Read_zero_length:
  "(0 < cache_len c \<longrightarrow> Read c 0 = Return (c, [], None)) \<and>
   (cache_len c = 0 \<and> aead_ok (RAEAD c) \<and> scratch_ok c \<and> length x \<le> MaxPayload \<and>
    incoming (rw c) = frame (RAEAD c) (RNonce c) x @ rest \<longrightarrow>
      (\<exists>c'. Read c 0 = Return (c', [], None) \<and> cache c' = x \<and> incoming (rw c') = rest
            \<and> RNonce c' = increment (increment (RNonce c))
            \<and> le_val (RNonce c') = (le_val (RNonce c) + 2) mod 2 ^ (8 * length (RNonce c))))"
proof -
  have a: "0 < cache_len c \<longrightarrow> Read c 0 = Return (c, [], None)"
    by (simp add: Read_def Let_def)
  have b: "\<exists>c'. Read c 0 = Return (c', [], None) \<and> cache c' = x \<and> incoming (rw c') = rest
            \<and> RNonce c' = increment (increment (RNonce c))
            \<and> le_val (RNonce c') = (le_val (RNonce c) + 2) mod 2 ^ (8 * length (RNonce c))"
    if z: "cache_len c = 0" and ok: "aead_ok (RAEAD c)" and sc: "scratch_ok c"
      and len: "length x \<le> MaxPayload"
      and inc: "incoming (rw c) = frame (RAEAD c) (RNonce c) x @ rest"
  proof -
    have rd: "Read c 0 = read_frame c 0 []" using z by (simp add: Read_def)
    let ?nn = "min (0 - length ([]::byte list)) (length x)"
    from read_frame_ok [OF ok sc len inc, of 0 "[]"] obtain B c' where
      c': "c' = (if 0 < length x - ?nn
                 then c\<lparr>rw := (rw c)\<lparr>incoming := rest\<rparr>, buffer := x @ B,
                        RNonce := increment (increment (RNonce c)),
                        cache_off := ?nn, cache_len := length x - ?nn\<rparr>
                 else c\<lparr>rw := (rw c)\<lparr>incoming := rest\<rparr>, buffer := x @ B,
                        RNonce := increment (increment (RNonce c))\<rparr>)"
      and rf: "read_frame c 0 [] = Return (c', [] @ take ?nn x, None)"
      by blast
    have 1: "Read c 0 = Return (c', [], None)" unfolding rd rf by simp
    have 2: "cache c' = x \<and> incoming (rw c') = rest
            \<and> RNonce c' = increment (increment (RNonce c))"
    proof (cases "0 < length x")
      case True
      then show ?thesis unfolding c' by (simp add: cache_def)
    next
      case False
      then show ?thesis unfolding c' using z by (simp add: cache_def)
    qed
    have "le_val ((increment ^^ 2) (RNonce c)) = (le_val (RNonce c) + 2) mod 2 ^ (8 * length (RNonce c))"
      by (rule le_val_funpow_increment)
    then have 3: "le_val (increment (increment (RNonce c)))
        = (le_val (RNonce c) + 2) mod 2 ^ (8 * length (RNonce c))"
      by (simp add: numeral_2_eq_2)
    from 1 2 3 show ?thesis by simp
  qed
  from a b show ?thesis by blast
qed

theorem Read_zero_length_witness:
  "0 < cache_len ((toy_tunnel [])\<lparr>cache_len := 2\<rparr>) \<and>
   Read ((toy_tunnel [])\<lparr>cache_len := 2\<rparr>) 0 = Return ((toy_tunnel [])\<lparr>cache_len := 2\<rparr>, [], None) \<and>
   cache_len (toy_tunnel (frame toy (replicate 12 0) [5, 6] @ [9])) = 0 \<and>
   aead_ok (RAEAD (toy_tunnel (frame toy (replicate 12 0) [5, 6] @ [9]))) \<and>
   scratch_ok (toy_tunnel (frame toy (replicate 12 0) [5, 6] @ [9])) \<and>
   length [5, 6 :: byte] \<le> MaxPayload \<and>
   incoming (rw (toy_tunnel (frame toy (replicate 12 0) [5, 6] @ [9]))) =
     frame (RAEAD (toy_tunnel (frame toy (replicate 12 0) [5, 6] @ [9])))
           (RNonce (toy_tunnel (frame toy (replicate 12 0) [5, 6] @ [9]))) [5, 6] @ [9] \<and>
   (\<exists>c'. Read (toy_tunnel (frame toy (replicate 12 0) [5, 6] @ [9])) 0 = Return (c', [], None)
         \<and> cache c' = [5, 6] \<and> incoming (rw c') = [9]
         \<and> RNonce c' = 2 # replicate 11 0 \<and> le_val (RNonce c') = 2)"
proof -
  let ?a = "(toy_tunnel [])\<lparr>cache_len := 2\<rparr>"
  let ?b = "toy_tunnel (frame toy (replicate 12 0) [5, 6] @ [9])"
  have a: "0 < cache_len ?a" by simp
  have b: "cache_len ?b = 0 \<and> aead_ok (RAEAD ?b) \<and> scratch_ok ?b \<and> length [5, 6 :: byte] \<le> MaxPayload \<and>
    incoming (rw ?b) = frame (RAEAD ?b) (RNonce ?b) [5, 6] @ [9]"
    using toy_ok by (simp add: toy_tunnel_def toy_conn_def scratch_ok_def toy_def MaxPayload_def)
  have n: "RNonce ?b = replicate 12 0" by (simp add: toy_tunnel_def)
  from Read_zero_length [of ?a] a have 1: "Read ?a 0 = Return (?a, [], None)" by blast
  from Read_zero_length [of ?b "[5, 6]" "[9]"] b
  have 2: "\<exists>c'. Read ?b 0 = Return (c', [], None) \<and> cache c' = [5, 6] \<and> incoming (rw c') = [9]
         \<and> RNonce c' = increment (increment (RNonce ?b))
         \<and> le_val (RNonce c') = (le_val (RNonce ?b) + 2) mod 2 ^ (8 * length (RNonce ?b))"
    by blast
  then obtain c' where r: "Read ?b 0 = Return (c', [], None)" "cache c' = [5, 6]"
    "incoming (rw c') = [9]" "RNonce c' = increment (increment (RNonce ?b))"
    by blast
  from r(4) have r4: "RNonce c' = 2 # replicate 11 0" by (simp add: n inc0 inc1)
  have r5: "le_val (RNonce c') = 2" unfolding r4 by (rule le_val_two)
  from r(1,2,3) r4 r5
  have 3: "\<exists>c'. Read ?b 0 = Return (c', [], None) \<and> cache c' = [5, 6] \<and> incoming (rw c') = [9]
         \<and> RNonce c' = 2 # replicate 11 0 \<and> le_val (RNonce c') = 2"
    by blast
  from a 1 b 3 show ?thesis by blast
qed

end
